theory Spec2Isabelle
  imports Main "HOL-Library.Multiset" "HOL-Library.Sublist"
begin

section \<open>The signaling queue: class ThreadSafeQueue\<close>

text \<open>
  The class keeps a \<^verbatim>\<open>std::queue<int> queue_\<close>, a flag \<^verbatim>\<open>finished_\<close>, a mutex and one
  condition variable \<^verbatim>\<open>condition_\<close>. Every method body runs with \<^verbatim>\<open>mutex_\<close> held from its
  first to its last statement, and \<^verbatim>\<open>condition_.wait\<close> gives the mutex up only while the
  caller is suspended. A method call is therefore one atomic transition of the shared
  state; a call to \<^verbatim>\<open>pop\<close> whose wait predicate is false makes the transition that suspends
  the caller. The condition variable is modelled by the list of threads suspended in it.

  Items are C++ \<^verbatim>\<open>int\<close>s; the queue stores and returns them untouched, so they are modelled
  as integers. The front of the queue is the head of the list.
\<close>

type_synonym tid = nat

datatype 'a outcome = Blocks | Returns 'a

text \<open>
  The members \<^verbatim>\<open>queue_\<close>, \<^verbatim>\<open>finished_\<close> and \<^verbatim>\<open>condition_\<close> are the fields \<open>queue_m\<close>,
  \<open>finished_m\<close> and \<open>condition_m\<close>: a name cannot end in an underscore here.
\<close>

record ThreadSafeQueue =
  queue_m :: "int list"
  finished_m :: bool
  condition_m :: "tid list"

text \<open>A freshly constructed queue: empty, \<^verbatim>\<open>finished_ = false\<close>, nobody waiting.\<close>

definition ThreadSafeQueue_init :: ThreadSafeQueue where
  "ThreadSafeQueue_init = \<lparr>queue_m = [], finished_m = False, condition_m = []\<rparr>"

text \<open>
  \<^verbatim>\<open>notify_one\<close> wakes one suspended thread when there is one; which one is left to the
  implementation, so the choice \<open>k\<close> is an argument. \<^verbatim>\<open>notify_all\<close> wakes all of them.
\<close>

definition notify_one :: "nat \<Rightarrow> tid list \<Rightarrow> tid list" where
  "notify_one k ws =
     (if ws = [] then []
      else take (k mod length ws) ws @ drop (Suc (k mod length ws)) ws)"

definition notify_all :: "tid list \<Rightarrow> tid list" where
  "notify_all ws = []"

text \<open>The predicate of \<^verbatim>\<open>condition_.wait(lock, [this] { return !queue_.empty() || finished_; })\<close>.\<close>

definition wait_pred :: "ThreadSafeQueue \<Rightarrow> bool" where
  "wait_pred q = (queue_m q \<noteq> [] \<or> finished_m q)"

text \<open>
  \<^verbatim>\<open>void push(int item) { lock; queue_.push(item); condition_.notify_one(); }\<close>
\<close>

definition push :: "nat \<Rightarrow> int \<Rightarrow> ThreadSafeQueue \<Rightarrow> ThreadSafeQueue" where
  "push k item q =
     q\<lparr>queue_m := queue_m q @ [item], condition_m := notify_one k (condition_m q)\<rparr>"

text \<open>
  \<^verbatim>\<open>bool pop(int& item)\<close>, called by thread \<open>t\<close> whose variable holds \<open>item\<close>. When the
  predicate is false the caller is suspended in \<^verbatim>\<open>condition_\<close> and the call has not returned.
  Otherwise the call returns the boolean together with the value the reference parameter
  holds afterwards: the front item when the queue is not empty, the old value when it is.
\<close>

definition pop :: "tid \<Rightarrow> int \<Rightarrow> ThreadSafeQueue \<Rightarrow> (bool \<times> int) outcome \<times> ThreadSafeQueue" where
  "pop t item q =
     (if \<not> wait_pred q then (Blocks, q\<lparr>condition_m := condition_m q @ [t]\<rparr>)
      else (case queue_m q of
              x # xs \<Rightarrow> (Returns (True, x), q\<lparr>queue_m := xs\<rparr>)
            | [] \<Rightarrow> (Returns (False, item), q)))"

text \<open>\<^verbatim>\<open>void finish() { lock; finished_ = true; condition_.notify_all(); }\<close>\<close>

definition finish :: "ThreadSafeQueue \<Rightarrow> ThreadSafeQueue" where
  "finish q = q\<lparr>finished_m := True, condition_m := notify_all (condition_m q)\<rparr>"

text \<open>\<^verbatim>\<open>size_t size() const { lock; return queue_.size(); }\<close>\<close>

definition queue_size :: "ThreadSafeQueue \<Rightarrow> nat" where
  "queue_size q = length (queue_m q)"

subsection \<open>Histories of calls\<close>

text \<open>
  Any number of threads use the queue. A history lists, in the order in which the mutex
  was taken, which thread did what. A thread suspended in \<^verbatim>\<open>condition_\<close> does nothing until it
  is woken, by a notification or spuriously; once woken it calls nothing new but checks the
  predicate of its \<^verbatim>\<open>pop\<close> again, which is the event \<open>Pop\<close> of that thread.
\<close>

datatype call = Push int nat | Pop int | Finish | Size | SpuriousWake

datatype response = Pushed | Popped bool int | Waits | Finished | SizeIs nat | Suspended | Woken

definition exec :: "tid \<Rightarrow> call \<Rightarrow> ThreadSafeQueue \<Rightarrow> response \<times> ThreadSafeQueue" where
  "exec t c q =
     (if t \<in> set (condition_m q) then
        (case c of
           SpuriousWake \<Rightarrow> (Woken, q\<lparr>condition_m := removeAll t (condition_m q)\<rparr>)
         | _ \<Rightarrow> (Suspended, q))
      else
        (case c of
           Push item k \<Rightarrow> (Pushed, push k item q)
         | Pop item \<Rightarrow>
             (case pop t item q of
                (Blocks, q') \<Rightarrow> (Waits, q')
              | (Returns (ok, v), q') \<Rightarrow> (Popped ok v, q'))
         | Finish \<Rightarrow> (Finished, finish q)
         | Size \<Rightarrow> (SizeIs (queue_size q), q)
         | SpuriousWake \<Rightarrow> (Woken, q)))"

fun run_history :: "(tid \<times> call) list \<Rightarrow> ThreadSafeQueue
    \<Rightarrow> (tid \<times> call \<times> response) list \<times> ThreadSafeQueue" where
  "run_history [] q = ([], q)"
| "run_history ((t, c) # h) q =
     (case exec t c q of
        (r, q') \<Rightarrow> (case run_history h q' of (log, q'') \<Rightarrow> ((t, c, r) # log, q'')))"

text \<open>The items a log shows as pushed, and as popped with \<^verbatim>\<open>true\<close>, in the order of the log.\<close>

fun pushed_item :: "tid \<times> call \<times> response \<Rightarrow> int list" where
  "pushed_item (t, Push item k, Pushed) = [item]"
| "pushed_item e = []"

fun popped_item :: "tid \<times> call \<times> response \<Rightarrow> int list" where
  "popped_item (t, c, Popped ok v) = (if ok then [v] else [])"
| "popped_item e = []"

definition pushed :: "(tid \<times> call \<times> response) list \<Rightarrow> int list" where
  "pushed log = concat (map pushed_item log)"

definition popped :: "(tid \<times> call \<times> response) list \<Rightarrow> int list" where
  "popped log = concat (map popped_item log)"

text \<open>A sequence of \<^verbatim>\<open>pop\<close> calls, each by a thread and with the value its variable holds.\<close>

fun pops :: "(tid \<times> int) list \<Rightarrow> ThreadSafeQueue
    \<Rightarrow> (bool \<times> int) outcome list \<times> ThreadSafeQueue" where
  "pops [] q = ([], q)"
| "pops ((t, item) # cs) q =
     (case pop t item q of
        (r, q') \<Rightarrow> (case pops cs q' of (rs, q'') \<Rightarrow> (r # rs, q'')))"

section \<open>The demonstration program: producer, consumer and main\<close>

text \<open>
  \<^verbatim>\<open>main\<close> constructs one queue and starts one thread running \<^verbatim>\<open>producer(queue, NUM_ITEMS)\<close>
  and \<^verbatim>\<open>NUM_CONSUMERS\<close> threads running \<^verbatim>\<open>consumer(queue, id)\<close> with the ids 1, 2, ....
  The state of the program is the queue and the local variables of the threads. The
  consumer with id \<open>cid\<close> is thread \<open>cid\<close> and its locals are at index \<open>cid - 1\<close>; the
  producer is thread 0. Beside \<^verbatim>\<open>item\<close> and \<^verbatim>\<open>count\<close> a consumer has the list of the
  items it has reported as consumed (one line of output each), oldest first.
\<close>

record consumer_locals =
  c_item :: int
  c_count :: int
  c_consumed :: "int list"
  c_returned :: bool

record main_state =
  queue :: ThreadSafeQueue
  p_i :: int
  p_returned :: bool
  consumers :: "consumer_locals list"

text \<open>
  The start: \<^verbatim>\<open>int i = 1\<close> in the producer, \<^verbatim>\<open>int count = 0\<close> in each consumer. \<^verbatim>\<open>int item\<close>
  is not initialised; \<open>junk\<close> gives what each consumer's variable happens to hold, and
  its length is the number of consumers.
\<close>

definition main_init :: "int list \<Rightarrow> main_state" where
  "main_init junk =
     \<lparr>queue = ThreadSafeQueue_init, p_i = 1, p_returned = False,
      consumers = map (\<lambda>v. \<lparr>c_item = v, c_count = 0, c_consumed = [], c_returned = False\<rparr>) junk\<rparr>"

text \<open>
  One step of \<^verbatim>\<open>producer\<close>: \<^verbatim>\<open>for (int i = 1; i <= num_items; ++i) queue.push(i);\<close> and, when
  the loop is over, \<^verbatim>\<open>queue.finish();\<close>. The model computes \<^verbatim>\<open>++i\<close> without overflow, which is
  what the code does for \<^verbatim>\<open>num_items\<close> below the largest \<^verbatim>\<open>int\<close>.
\<close>

definition producer :: "int \<Rightarrow> nat \<Rightarrow> main_state \<Rightarrow> main_state" where
  "producer num_items k s =
     (if p_returned s then s
      else if p_i s \<le> num_items
      then s\<lparr>queue := push k (p_i s) (queue s), p_i := p_i s + 1\<rparr>
      else s\<lparr>queue := finish (queue s), p_returned := True\<rparr>)"

text \<open>
  One step of \<^verbatim>\<open>consumer\<close>: \<^verbatim>\<open>while (queue.pop(item)) { count++; ... }\<close>. A consumer that has
  left the loop, or is suspended in \<^verbatim>\<open>condition_\<close>, does nothing.
\<close>

definition consumer :: "nat \<Rightarrow> main_state \<Rightarrow> main_state" where
  "consumer cid s =
     (if cid = 0 \<or> length (consumers s) < cid then s
      else let c = consumers s ! (cid - 1) in
        if c_returned c \<or> cid \<in> set (condition_m (queue s)) then s
        else (case pop cid (c_item c) (queue s) of
                (Blocks, q') \<Rightarrow> s\<lparr>queue := q'\<rparr>
              | (Returns (ok, v), q') \<Rightarrow>
                  if ok
                  then s\<lparr>queue := q',
                         consumers := (consumers s)[cid - 1 :=
                           c\<lparr>c_item := v, c_count := c_count c + 1,
                             c_consumed := c_consumed c @ [v]\<rparr>]\<rparr>
                  else s\<lparr>queue := q',
                         consumers := (consumers s)[cid - 1 :=
                           c\<lparr>c_item := v, c_returned := True\<rparr>]\<rparr>))"

text \<open>
  A schedule: the producer's turn (with the choice its \<^verbatim>\<open>notify_one\<close> makes), the turn of a
  consumer, or a spurious wake-up of a thread.
\<close>

datatype main_event = ProducerTurn nat | ConsumerTurn nat | SpuriousWakeOf tid

fun is_turn :: "main_event \<Rightarrow> bool" where
  "is_turn (SpuriousWakeOf t) = False"
| "is_turn e = True"

fun main_step :: "int \<Rightarrow> main_event \<Rightarrow> main_state \<Rightarrow> main_state" where
  "main_step num_items (ProducerTurn k) s = producer num_items k s"
| "main_step num_items (ConsumerTurn cid) s = consumer cid s"
| "main_step num_items (SpuriousWakeOf t) s =
     s\<lparr>queue := (queue s)\<lparr>condition_m := removeAll t (condition_m (queue s))\<rparr>\<rparr>"

fun main_run :: "int \<Rightarrow> main_event list \<Rightarrow> main_state \<Rightarrow> main_state" where
  "main_run num_items [] s = s"
| "main_run num_items (e # es) s = main_run num_items es (main_step num_items e s)"

text \<open>
  What is left to do, as a number that every effective turn makes smaller: the calls the
  producer still has to make weigh more than anything a call of it can add below.
\<close>

definition not_returned :: "consumer_locals list \<Rightarrow> nat" where
  "not_returned cs = sum_list (map (\<lambda>c. if c_returned c then 0 else 1) cs)"

definition producer_left :: "int \<Rightarrow> main_state \<Rightarrow> nat" where
  "producer_left num_items s =
     (if p_returned s then 0 else nat (num_items + 1 - p_i s) + 1)"

definition main_measure :: "int \<Rightarrow> main_state \<Rightarrow> nat" where
  "main_measure num_items s =
     producer_left num_items s * (length (consumers s) + 3)
     + length (queue_m (queue s))
     + 2 * not_returned (consumers s)
     + (length (consumers s) - length (condition_m (queue s)))"

text \<open>
  The turns of a schedule that change the state, and its spurious wake-ups, counted.
\<close>

fun effective_turns :: "int \<Rightarrow> main_event list \<Rightarrow> main_state \<Rightarrow> nat" where
  "effective_turns num_items [] s = 0"
| "effective_turns num_items (e # es) s =
     (if is_turn e \<and> main_step num_items e s \<noteq> s then 1 else 0)
     + effective_turns num_items es (main_step num_items e s)"

fun spurious_wakes :: "main_event list \<Rightarrow> nat" where
  "spurious_wakes [] = 0"
| "spurious_wakes (e # es) = (if is_turn e then 0 else 1) + spurious_wakes es"

text \<open>
  What every reachable state of the program satisfies: \<^verbatim>\<open>finished_\<close> is set exactly when the
  producer has returned; \<^verbatim>\<open>i\<close> stays within its loop bounds; a consumer that has returned
  saw the queue closed and empty; the threads suspended in \<^verbatim>\<open>condition_\<close> are distinct
  consumers that have not returned, and none is left suspended once the queue is closed.
\<close>

definition main_inv :: "int \<Rightarrow> main_state \<Rightarrow> bool" where
  "main_inv N s =
     (finished_m (queue s) = p_returned s
      \<and> 1 \<le> p_i s \<and> (p_i s \<le> N + 1 \<or> p_i s = 1) \<and> (p_returned s \<longrightarrow> N < p_i s)
      \<and> (\<forall>j < length (consumers s). c_returned (consumers s ! j) \<longrightarrow>
            queue_m (queue s) = [] \<and> finished_m (queue s))
      \<and> distinct (condition_m (queue s))
      \<and> (\<forall>t \<in> set (condition_m (queue s)).
            1 \<le> t \<and> t \<le> length (consumers s) \<and> \<not> c_returned (consumers s ! (t - 1)))
      \<and> (finished_m (queue s) \<longrightarrow> condition_m (queue s) = []))"

text \<open>
  With one consumer: the items it has consumed, followed by the items queued, are the
  items pushed so far, which are 1, ..., \<^verbatim>\<open>i - 1\<close>.
\<close>

definition fifo_inv :: "main_state \<Rightarrow> bool" where
  "fifo_inv s =
     (length (consumers s) = 1
      \<and> c_consumed (consumers s ! 0) @ queue_m (queue s) = [1..p_i s - 1])"

text \<open>
  With any number of consumers: the items consumed by all of them, in the order of the
  consumers, and the fact that these items together with the queued ones are, as a
  multiset, the items pushed so far.
\<close>

definition all_consumed :: "consumer_locals list \<Rightarrow> int list" where
  "all_consumed cs = concat (map c_consumed cs)"

definition mset_inv :: "main_state \<Rightarrow> bool" where
  "mset_inv s =
     (mset (all_consumed (consumers s)) + mset (queue_m (queue s)) = mset [1..p_i s - 1])"

section \<open>The bounded buffer: namespace efficient_version\<close>

text \<open>
  The bounded variant is written inline in \<^verbatim>\<open>efficient_version::producer\<close> and
  \<^verbatim>\<open>efficient_version::consumer\<close>, over the globals \<^verbatim>\<open>buffer\<close>, \<^verbatim>\<open>producer_done\<close> and the two
  condition variables \<^verbatim>\<open>buffer_not_empty\<close> and \<^verbatim>\<open>buffer_not_full\<close>, all guarded by
  \<^verbatim>\<open>buffer_mutex\<close>. \<^verbatim>\<open>run_efficient_version\<close> empties the buffer, clears the flag and starts
  one thread of each. The state holds the globals and the local variables of the two
  threads; one step is what a thread does between taking the mutex and giving it up.
\<close>

definition NUM_ITEMS :: int where
  "NUM_ITEMS = 50"

definition BUFFER_SIZE :: nat where
  "BUFFER_SIZE = 10"

text \<open>Where the producer stands: in its \<^verbatim>\<open>for\<close> loop, after it, or past its last statement.\<close>

datatype producer_pc = InLoop | AfterLoop | Returned

record efficient_version =
  buffer :: "int list"
  producer_done :: bool
  buffer_not_empty :: "tid list"
  buffer_not_full :: "tid list"
  producer_i :: int
  producer_at :: producer_pc
  consumed_count :: int
  consumer_returned :: bool

definition producer_tid :: tid where
  "producer_tid = 0"

definition consumer_tid :: tid where
  "consumer_tid = 1"

definition run_efficient_version_init :: efficient_version where
  "run_efficient_version_init =
     \<lparr>buffer = [], producer_done = False, buffer_not_empty = [], buffer_not_full = [],
      producer_i = 1, producer_at = InLoop, consumed_count = 0, consumer_returned = False\<rparr>"

text \<open>
  One step of the producer. In the loop, with \<^verbatim>\<open>i <= NUM_ITEMS\<close>:
  \<^verbatim>\<open>buffer_not_full.wait(lock, [] { return buffer.size() < BUFFER_SIZE; });
  buffer.push(i); buffer_not_empty.notify_one();\<close> and then \<^verbatim>\<open>++i\<close>. When the loop is over:
  \<^verbatim>\<open>producer_done = true\<close> under the mutex, and in a step of its own
  \<^verbatim>\<open>buffer_not_empty.notify_all()\<close>. A producer suspended in \<^verbatim>\<open>buffer_not_full\<close> does nothing.
\<close>

definition efficient_producer :: "nat \<Rightarrow> efficient_version \<Rightarrow> efficient_version" where
  "efficient_producer k s =
     (if producer_tid \<in> set (buffer_not_full s) then s
      else (case producer_at s of
              InLoop \<Rightarrow>
                if producer_i s \<le> NUM_ITEMS then
                  if \<not> length (buffer s) < BUFFER_SIZE
                  then s\<lparr>buffer_not_full := buffer_not_full s @ [producer_tid]\<rparr>
                  else s\<lparr>buffer := buffer s @ [producer_i s],
                         buffer_not_empty := notify_one k (buffer_not_empty s),
                         producer_i := producer_i s + 1\<rparr>
                else s\<lparr>producer_done := True, producer_at := AfterLoop\<rparr>
            | AfterLoop \<Rightarrow>
                s\<lparr>buffer_not_empty := notify_all (buffer_not_empty s), producer_at := Returned\<rparr>
            | Returned \<Rightarrow> s))"

text \<open>
  One turn of the consumer's \<^verbatim>\<open>while (true)\<close>:
  \<^verbatim>\<open>buffer_not_empty.wait(lock, [] { return !buffer.empty() || producer_done; });\<close> then, when
  the buffer is not empty, \<^verbatim>\<open>buffer.pop(); consumed_count++; buffer_not_full.notify_one();\<close>
  and otherwise \<^verbatim>\<open>if (producer_done && buffer.empty()) break;\<close>.
\<close>

definition efficient_consumer :: "nat \<Rightarrow> efficient_version \<Rightarrow> efficient_version" where
  "efficient_consumer k s =
     (if consumer_returned s \<or> consumer_tid \<in> set (buffer_not_empty s) then s
      else if \<not> (buffer s \<noteq> [] \<or> producer_done s)
      then s\<lparr>buffer_not_empty := buffer_not_empty s @ [consumer_tid]\<rparr>
      else (case buffer s of
              item # rest \<Rightarrow>
                s\<lparr>buffer := rest, consumed_count := consumed_count s + 1,
                  buffer_not_full := notify_one k (buffer_not_full s)\<rparr>
            | [] \<Rightarrow> if producer_done s \<and> buffer s = [] then s\<lparr>consumer_returned := True\<rparr> else s))"

text \<open>A schedule says which thread takes the mutex next, or which thread wakes spuriously.\<close>

datatype efficient_event = ProducerRuns nat | ConsumerRuns nat | SpuriousWakeup tid

fun efficient_step :: "efficient_event \<Rightarrow> efficient_version \<Rightarrow> efficient_version" where
  "efficient_step (ProducerRuns k) s = efficient_producer k s"
| "efficient_step (ConsumerRuns k) s = efficient_consumer k s"
| "efficient_step (SpuriousWakeup t) s =
     s\<lparr>buffer_not_empty := removeAll t (buffer_not_empty s),
       buffer_not_full := removeAll t (buffer_not_full s)\<rparr>"

fun efficient_run :: "efficient_event list \<Rightarrow> efficient_version \<Rightarrow> efficient_version" where
  "efficient_run [] s = s"
| "efficient_run (e # es) s = efficient_run es (efficient_step e s)"

section \<open>The fixed-capacity stack: template Stack\<close>

text \<open>
  \<^verbatim>\<open>template <typename T, size_t MaxSize = 100> class Stack\<close> keeps an array
  \<^verbatim>\<open>T data[MaxSize]\<close> and \<^verbatim>\<open>size_t top_index\<close>. The template argument \<open>MaxSize\<close> is an
  argument of \<open>Stack_push\<close>. The two exceptions are the two errors; each carries its message.
\<close>

datatype stack_error = overflow_error string | underflow_error string

record 'a Stack =
  data :: "'a list"
  top_index :: nat

text \<open>The constructor sets \<^verbatim>\<open>top_index(0)\<close> and leaves the array as the memory \<open>mem\<close> had it.\<close>

definition Stack_init :: "'a list \<Rightarrow> 'a Stack" where
  "Stack_init mem = \<lparr>data = mem, top_index = 0\<rparr>"

definition Stack_empty :: "'a Stack \<Rightarrow> bool" where
  "Stack_empty s = (top_index s = 0)"

definition Stack_size :: "'a Stack \<Rightarrow> nat" where
  "Stack_size s = top_index s"

text \<open>
  \<^verbatim>\<open>if (top_index >= MaxSize) throw std::overflow_error("Stack overflow");
  data[top_index++] = value;\<close>
\<close>

definition Stack_push :: "nat \<Rightarrow> 'a \<Rightarrow> 'a Stack \<Rightarrow> stack_error + 'a Stack" where
  "Stack_push MaxSize v s =
     (if top_index s \<ge> MaxSize then Inl (overflow_error ''Stack overflow'')
      else Inr (s\<lparr>data := (data s)[top_index s := v], top_index := top_index s + 1\<rparr>))"

text \<open>
  \<^verbatim>\<open>if (empty()) throw std::underflow_error("Stack underflow"); return data[--top_index];\<close>
\<close>

definition Stack_pop :: "'a Stack \<Rightarrow> stack_error + ('a \<times> 'a Stack)" where
  "Stack_pop s =
     (if Stack_empty s then Inl (underflow_error ''Stack underflow'')
      else Inr (data s ! (top_index s - 1), s\<lparr>top_index := top_index s - 1\<rparr>))"

text \<open>
  What a stack object satisfies from its construction on: the array has \<open>MaxSize\<close> cells
  and \<open>top_index\<close> does not pass it. The elements the stack holds are the first
  \<open>top_index\<close> cells, bottom first, as \<^verbatim>\<open>display()\<close> prints them.
\<close>

definition Stack_inv :: "nat \<Rightarrow> 'a Stack \<Rightarrow> bool" where
  "Stack_inv MaxSize s = (length (data s) = MaxSize \<and> top_index s \<le> MaxSize)"

definition Stack_contents :: "'a Stack \<Rightarrow> 'a list" where
  "Stack_contents s = take (top_index s) (data s)"

section \<open>Properties of the signaling queue\<close>

subsection \<open>One call, and histories of calls\<close>

lemma exec_fifo:
  "exec t c q = (r, q') \<Longrightarrow>
     popped_item (t, c, r) @ queue_m q' = queue_m q @ pushed_item (t, c, r)"
  by (cases c)
     (auto simp: exec_def push_def pop_def finish_def split: if_splits list.splits)

lemma run_history_fifo:
  "run_history h q = (log, q') \<Longrightarrow> popped log @ queue_m q' = queue_m q @ pushed log"
proof (induction h arbitrary: q log q')
  case Nil
  then show ?case by (simp add: popped_def pushed_def)
next
  case (Cons e h)
  obtain t c where e: "e = (t, c)" by (cases e)
  obtain r q1 where ex: "exec t c q = (r, q1)" by (cases "exec t c q")
  obtain log1 q2 where run: "run_history h q1 = (log1, q2)" by (cases "run_history h q1")
  from Cons.prems e ex run have log: "log = (t, c, r) # log1" and q': "q' = q2"
    by simp_all
  have ih: "popped log1 @ queue_m q2 = queue_m q1 @ pushed log1"
    using Cons.IH [OF run] .
  have step: "popped_item (t, c, r) @ queue_m q1 = queue_m q @ pushed_item (t, c, r)"
    using exec_fifo [OF ex] .
  have "popped log @ queue_m q' = popped_item (t, c, r) @ (popped log1 @ queue_m q2)"
    by (simp add: log q' popped_def)
  also have "\<dots> = (popped_item (t, c, r) @ queue_m q1) @ pushed log1"
    by (simp add: ih)
  also have "\<dots> = queue_m q @ pushed log"
    by (simp add: step log pushed_def)
  finally show ?case .
qed

lemma exec_popped_false:
  "exec t c q = (Popped False v, q') \<Longrightarrow> queue_m q' = [] \<and> finished_m q'"
  by (cases c)
     (auto simp: exec_def pop_def wait_pred_def split: if_splits list.splits)

lemma run_history_length:
  "run_history h q = (log, q') \<Longrightarrow> length log = length h"
  by (induction h arbitrary: q log q') (auto split: prod.splits)

lemma run_history_last_false:
  "run_history h q = (log, q') \<Longrightarrow> log \<noteq> [] \<Longrightarrow>
     last log = (t, c, Popped False v) \<Longrightarrow> queue_m q' = [] \<and> finished_m q'"
proof (induction h arbitrary: q log q')
  case Nil
  then show ?case by simp
next
  case (Cons e h)
  obtain t0 c0 where e: "e = (t0, c0)" by (cases e)
  obtain r q1 where ex: "exec t0 c0 q = (r, q1)" by (cases "exec t0 c0 q")
  obtain log1 q2 where run: "run_history h q1 = (log1, q2)" by (cases "run_history h q1")
  from Cons.prems(1) e ex run have log: "log = (t0, c0, r) # log1" and q': "q' = q2"
    by simp_all
  show ?case
  proof (cases "log1 = []")
    case True
    with run_history_length [OF run] have "h = []" by simp
    with run have "q2 = q1" by simp
    moreover from True log Cons.prems(3) have "r = Popped False v" by simp
    ultimately show ?thesis using ex q' exec_popped_false by blast
  next
    case False
    with log Cons.prems(3) have "last log1 = (t, c, Popped False v)" by simp
    from Cons.IH [OF run False this] q' show ?thesis by simp
  qed
qed

lemma exec_finished:
  "exec t c q = (r, q') \<Longrightarrow> finished_m q \<Longrightarrow> finished_m q'"
  by (cases c)
     (auto simp: exec_def push_def pop_def finish_def split: if_splits list.splits)

lemma run_history_finished:
  "run_history h q = (log, q') \<Longrightarrow> finished_m q \<Longrightarrow> finished_m q'"
proof (induction h arbitrary: q log q')
  case Nil
  then show ?case by simp
next
  case (Cons e h)
  then show ?case
    by (cases e) (auto split: prod.splits dest: exec_finished)
qed

lemma pop_front:
  "queue_m q = x # xs \<Longrightarrow> pop t item q = (Returns (True, x), q\<lparr>queue_m := xs\<rparr>)"
  by (simp add: pop_def wait_pred_def)

lemma pop_drained:
  "finished_m q \<Longrightarrow> queue_m q = [] \<Longrightarrow> pop t item q = (Returns (False, item), q)"
  by (simp add: pop_def wait_pred_def)

lemma pop_closed_items:
  "finished_m q \<Longrightarrow> queue_m (snd (pop t item q)) = tl (queue_m q)"
  by (simp add: pop_def wait_pred_def split: list.splits)

lemma pops_drained:
  "finished_m q \<Longrightarrow> queue_m q = [] \<Longrightarrow>
     pops cs q = (map (\<lambda>(t, item). Returns (False, item)) cs, q)"
  by (induction cs) (auto simp: pop_drained)

lemma pops_closed:
  "finished_m q \<Longrightarrow> length cs = length (queue_m q) \<Longrightarrow>
     pops cs q = (map (\<lambda>x. Returns (True, x)) (queue_m q), q\<lparr>queue_m := []\<rparr>)"
proof (induction cs arbitrary: q)
  case Nil
  then show ?case by simp
next
  case (Cons c cs)
  obtain t item where c: "c = (t, item)" by (cases c)
  from Cons.prems(2) obtain x xs where q: "queue_m q = x # xs"
    by (cases "queue_m q") auto
  let ?q1 = "q\<lparr>queue_m := xs\<rparr>"
  have step: "pop t item q = (Returns (True, x), ?q1)"
    using q by (rule pop_front)
  have "pops cs ?q1 = (map (\<lambda>x. Returns (True, x)) (queue_m ?q1), ?q1\<lparr>queue_m := []\<rparr>)"
    using Cons.prems q by (intro Cons.IH) simp_all
  with step c q show ?case by simp
qed

text \<open>
  A history used in the examples below: thread 0 produces 1 and 2 and calls \<^verbatim>\<open>finish\<close>,
  thread 1 consumes. Its first \<^verbatim>\<open>pop\<close> finds the queue empty and open and suspends it; the
  first \<^verbatim>\<open>push\<close> wakes it.
\<close>

lemma example_history:
  "run_history
     [(1, Pop 0), (0, Push 1 0), (1, Pop 0), (0, Push 2 0), (0, Finish), (1, Pop 1), (1, Pop 2)]
     ThreadSafeQueue_init
   = ([(1, Pop 0, Waits), (0, Push 1 0, Pushed), (1, Pop 0, Popped True 1),
       (0, Push 2 0, Pushed), (0, Finish, Finished), (1, Pop 1, Popped True 2),
       (1, Pop 2, Popped False 2)],
      \<lparr>queue_m = [], finished_m = True, condition_m = []\<rparr>)"
  by (simp add: exec_def push_def pop_def finish_def wait_pred_def notify_one_def
      notify_all_def ThreadSafeQueue_init_def)

subsection \<open>The demonstration program\<close>

lemma set_notify_one: "set (notify_one k ws) \<subseteq> set ws"
  by (auto simp: notify_one_def dest: in_set_takeD in_set_dropD)

lemma distinct_notify_one: "distinct ws \<Longrightarrow> distinct (notify_one k ws)"
proof -
  assume d: "distinct ws"
  have "distinct (take n ws @ drop (Suc n) ws)" for n
  proof -
    from d have "distinct (take n ws @ drop n ws)" by simp
    then have "distinct (take n ws)" "distinct (drop n ws)"
      "set (take n ws) \<inter> set (drop n ws) = {}" by (simp_all only: distinct_append)
    moreover have "set (drop (Suc n) ws) \<subseteq> set (drop n ws)"
      by (rule set_drop_subset_set_drop) simp
    moreover have "distinct (drop (Suc n) ws)" using d by simp
    ultimately show ?thesis by (auto simp only: distinct_append)
  qed
  then show ?thesis by (simp add: notify_one_def)
qed

lemma length_notify_one:
  "length (notify_one k ws) = length ws - 1"
proof (cases "ws = []")
  case True
  then show ?thesis by (simp add: notify_one_def)
next
  case False
  define n where "n = k mod length ws"
  have "n < length ws" using False by (simp add: n_def)
  then have "length (take n ws @ drop (Suc n) ws) = length ws - 1" by simp
  then show ?thesis using False by (simp add: notify_one_def n_def)
qed

lemma main_inv_init: "main_inv N (main_init junk)"
  by (auto simp: main_inv_def main_init_def ThreadSafeQueue_init_def)

lemma producer_inv: "main_inv N s \<Longrightarrow> main_inv N (producer N k s)"
  using set_notify_one [of k "condition_m (queue s)"]
  by (auto simp: main_inv_def producer_def push_def finish_def notify_all_def distinct_notify_one)

lemma consumer_cases [case_names idle blocks takes returns]:
  assumes "\<lbrakk>cid = 0 \<or> length (consumers s) < cid \<or> c_returned (consumers s ! (cid - 1))
          \<or> cid \<in> set (condition_m (queue s));
        consumer cid s = s\<rbrakk> \<Longrightarrow> P"
  and "\<lbrakk>1 \<le> cid; cid \<le> length (consumers s); \<not> c_returned (consumers s ! (cid - 1));
        cid \<notin> set (condition_m (queue s)); queue_m (queue s) = []; \<not> finished_m (queue s);
        consumer cid s = s\<lparr>queue := (queue s)\<lparr>condition_m := condition_m (queue s) @ [cid]\<rparr>\<rparr>\<rbrakk>
       \<Longrightarrow> P"
  and "\<And>x xs. \<lbrakk>1 \<le> cid; cid \<le> length (consumers s); \<not> c_returned (consumers s ! (cid - 1));
        cid \<notin> set (condition_m (queue s)); queue_m (queue s) = x # xs;
        consumer cid s = s\<lparr>queue := (queue s)\<lparr>queue_m := xs\<rparr>,
          consumers := (consumers s)[cid - 1 :=
            (consumers s ! (cid - 1))\<lparr>c_item := x,
               c_count := c_count (consumers s ! (cid - 1)) + 1,
               c_consumed := c_consumed (consumers s ! (cid - 1)) @ [x]\<rparr>]\<rparr>\<rbrakk>
       \<Longrightarrow> P"
  and "\<lbrakk>1 \<le> cid; cid \<le> length (consumers s); \<not> c_returned (consumers s ! (cid - 1));
        cid \<notin> set (condition_m (queue s)); queue_m (queue s) = []; finished_m (queue s);
        consumer cid s = s\<lparr>consumers := (consumers s)[cid - 1 :=
            (consumers s ! (cid - 1))\<lparr>c_returned := True\<rparr>]\<rparr>\<rbrakk>
       \<Longrightarrow> P"
  shows P
proof (cases "cid = 0 \<or> length (consumers s) < cid \<or> c_returned (consumers s ! (cid - 1))
      \<or> cid \<in> set (condition_m (queue s))")
  case True
  then have "consumer cid s = s" by (auto simp: consumer_def Let_def)
  with True show ?thesis by (rule assms(1))
next
  case False
  then have v: "1 \<le> cid" "cid \<le> length (consumers s)" "\<not> c_returned (consumers s ! (cid - 1))"
    "cid \<notin> set (condition_m (queue s))" by auto
  show ?thesis
  proof (cases "queue_m (queue s)")
    case Nil
    show ?thesis
    proof (cases "finished_m (queue s)")
      case True
      have "consumer cid s = s\<lparr>consumers := (consumers s)[cid - 1 :=
            (consumers s ! (cid - 1))\<lparr>c_returned := True\<rparr>]\<rparr>"
        using False Nil True by (simp add: consumer_def Let_def pop_def wait_pred_def)
      with v Nil True show ?thesis by (intro assms(4))
    next
      case nf: False
      have "consumer cid s = s\<lparr>queue := (queue s)\<lparr>condition_m := condition_m (queue s) @ [cid]\<rparr>\<rparr>"
        using False Nil nf by (simp add: consumer_def Let_def pop_def wait_pred_def)
      with v Nil nf show ?thesis by (intro assms(2))
    qed
  next
    case (Cons x xs)
    have "consumer cid s = s\<lparr>queue := (queue s)\<lparr>queue_m := xs\<rparr>,
          consumers := (consumers s)[cid - 1 :=
            (consumers s ! (cid - 1))\<lparr>c_item := x,
               c_count := c_count (consumers s ! (cid - 1)) + 1,
               c_consumed := c_consumed (consumers s ! (cid - 1)) @ [x]\<rparr>]\<rparr>"
      using False Cons by (simp add: consumer_def Let_def pop_def wait_pred_def)
    with v Cons show ?thesis by (intro assms(3))
  qed
qed

lemma consumer_inv:
  assumes "main_inv N s"
  shows "main_inv N (consumer cid s)"
proof (cases rule: consumer_cases [of cid s])
  case idle
  with assms show ?thesis by simp
next
  case blocks
  with assms show ?thesis
    by (auto simp: main_inv_def)
next
  case (takes x xs)
  with assms show ?thesis
    by (auto simp: main_inv_def nth_list_update)
next
  case returns
  with assms show ?thesis
    by (auto simp: main_inv_def nth_list_update)
qed

lemma main_step_inv: "main_inv N s \<Longrightarrow> main_inv N (main_step N e s)"
  by (cases e) (auto simp: producer_inv consumer_inv, auto simp: main_inv_def distinct_removeAll)

lemma main_run_inv: "main_inv N s \<Longrightarrow> main_inv N (main_run N es s)"
  by (induction es arbitrary: s) (simp_all add: main_step_inv)

lemma fifo_inv_init: "fifo_inv (main_init [v])"
  by (simp add: fifo_inv_def main_init_def ThreadSafeQueue_init_def)

lemma producer_fifo:
  assumes "main_inv N s" and "fifo_inv s"
  shows "fifo_inv (producer N k s)"
proof -
  from assms(1) have "1 \<le> p_i s" by (simp add: main_inv_def)
  then have "[1..p_i s] = [1..p_i s - 1] @ [p_i s]" by (rule upto_rec2)
  with assms(2) show ?thesis
    by (simp add: fifo_inv_def producer_def push_def finish_def)
qed

lemma consumer_fifo:
  assumes "fifo_inv s"
  shows "fifo_inv (consumer cid s)"
proof (cases rule: consumer_cases [of cid s])
  case idle
  with assms show ?thesis by simp
next
  case blocks
  with assms show ?thesis by (simp add: fifo_inv_def)
next
  case (takes x xs)
  with assms show ?thesis by (auto simp: fifo_inv_def)
next
  case returns
  with assms show ?thesis by (auto simp: fifo_inv_def)
qed

lemma main_step_fifo: "main_inv N s \<Longrightarrow> fifo_inv s \<Longrightarrow> fifo_inv (main_step N e s)"
  by (cases e) (simp_all add: producer_fifo consumer_fifo, simp add: fifo_inv_def)

lemma main_run_fifo: "main_inv N s \<Longrightarrow> fifo_inv s \<Longrightarrow> fifo_inv (main_run N es s)"
  by (induction es arbitrary: s) (simp_all add: main_step_fifo main_step_inv)

lemma returned_all_delivered:
  assumes "main_inv N s" and "fifo_inv s" and "c_returned (consumers s ! 0)"
  shows "c_consumed (consumers s ! 0) = [1..N]"
proof -
  from assms(2) have len: "length (consumers s) = 1"
    and eq: "c_consumed (consumers s ! 0) @ queue_m (queue s) = [1..p_i s - 1]"
    by (simp_all add: fifo_inv_def)
  from assms(1) len assms(3) have e: "queue_m (queue s) = []" and f: "finished_m (queue s)"
    by (auto simp: main_inv_def)
  from assms(1) f have "N < p_i s" and "p_i s \<le> N + 1 \<or> p_i s = 1"
    by (auto simp: main_inv_def)
  then have "[1..p_i s - 1] = [1..N]"
    by (cases "p_i s = N + 1") auto
  with eq e show ?thesis by simp
qed


lemma not_returned_update:
  assumes "j < length cs"
  shows "not_returned (cs[j := c]) + (if c_returned (cs ! j) then 0 else 1)
           = not_returned cs + (if c_returned c then 0 else 1)"
  using assms
proof (induction cs arbitrary: j)
  case Nil
  then show ?case by simp
next
  case (Cons a cs)
  then show ?case
    by (cases j) (auto simp: not_returned_def)
qed

lemma waiters_bound:
  assumes "distinct ws" and "\<forall>t \<in> set ws. 1 \<le> t \<and> t \<le> n" and "1 \<le> cid" and "cid \<le> n"
    and "cid \<notin> set ws"
  shows "length ws < n"
proof -
  have "set ws \<subseteq> {1..n} - {cid}" using assms(2,5) by auto
  then have "card (set ws) \<le> card ({1..n} - {cid})" by (intro card_mono) simp_all
  also have "\<dots> = n - 1" using assms(3,4) by simp
  finally show ?thesis using assms(1,3,4) by (simp add: distinct_card)
qed

lemma producer_returned: "p_returned s \<Longrightarrow> producer N k s = s"
  by (simp add: producer_def)

lemma producer_measure:
  assumes "\<not> p_returned s"
  shows "main_measure N (producer N k s) < main_measure N s"
proof -
  define n where "n = length (consumers s)"
  define W where "W = length (condition_m (queue s))"
  show ?thesis
  proof (cases "p_i s \<le> N")
    case True
    let ?s' = "s\<lparr>queue := push k (p_i s) (queue s), p_i := p_i s + 1\<rparr>"
    define a where "a = producer_left N ?s'"
    have step: "producer N k s = ?s'"
      using assms True by (simp add: producer_def)
    have "nat (N + 1 - p_i s) = Suc (nat (N + 1 - (p_i s + 1)))"
      using True by simp
    then have left: "producer_left N s = Suc a"
      using assms by (simp add: producer_left_def a_def)
    have "main_measure N ?s' = a * (n + 3) + Suc (length (queue_m (queue s)))
            + 2 * not_returned (consumers s) + (n - (W - 1))"
      by (simp add: main_measure_def a_def n_def W_def push_def length_notify_one)
    moreover have "main_measure N s = (n + 3) + a * (n + 3) + length (queue_m (queue s))
            + 2 * not_returned (consumers s) + (n - W)"
      by (simp add: main_measure_def left n_def W_def)
    ultimately have "main_measure N ?s' < main_measure N s" by arith
    with step show ?thesis by simp
  next
    case gt: False
    let ?s' = "s\<lparr>queue := finish (queue s), p_returned := True\<rparr>"
    have step: "producer N k s = ?s'"
      using assms gt by (simp add: producer_def)
    have "main_measure N ?s' = length (queue_m (queue s))
            + 2 * not_returned (consumers s) + n"
      by (simp add: main_measure_def producer_left_def n_def finish_def notify_all_def)
    moreover have "main_measure N s = (n + 3) + length (queue_m (queue s))
            + 2 * not_returned (consumers s) + (n - W)"
      using assms gt by (simp add: main_measure_def producer_left_def n_def W_def)
    ultimately have "main_measure N ?s' < main_measure N s" by arith
    with step show ?thesis by simp
  qed
qed

lemma consumer_measure:
  assumes "main_inv N s" and "1 \<le> cid" and "cid \<le> length (consumers s)"
    and "\<not> c_returned (consumers s ! (cid - 1))" and "cid \<notin> set (condition_m (queue s))"
  shows "main_measure N (consumer cid s) < main_measure N s"
proof (cases rule: consumer_cases [of cid s])
  case idle
  with assms(2-5) show ?thesis by auto
next
  case blocks
  from assms(1) have "distinct (condition_m (queue s))"
    and "\<forall>t \<in> set (condition_m (queue s)). 1 \<le> t \<and> t \<le> length (consumers s)"
    by (simp_all add: main_inv_def)
  from waiters_bound [OF this blocks(1,2,4)]
  have W: "length (condition_m (queue s)) < length (consumers s)" .
  show ?thesis
    unfolding blocks(7) main_measure_def producer_left_def using W by simp arith
next
  case (takes x xs)
  let ?c = "(consumers s ! (cid - 1))\<lparr>c_item := x,
               c_count := c_count (consumers s ! (cid - 1)) + 1,
               c_consumed := c_consumed (consumers s ! (cid - 1)) @ [x]\<rparr>"
  have "cid - 1 < length (consumers s)" using takes(1,2) by simp
  from not_returned_update [OF this, of ?c] takes(3)
  have "not_returned ((consumers s)[cid - 1 := ?c]) = not_returned (consumers s)" by simp
  then show ?thesis
    unfolding takes(6) main_measure_def producer_left_def using takes(5) by simp
next
  case returns
  let ?c = "(consumers s ! (cid - 1))\<lparr>c_returned := True\<rparr>"
  have "cid - 1 < length (consumers s)" using returns(1,2) by simp
  from not_returned_update [OF this, of ?c] returns(3)
  have "Suc (not_returned ((consumers s)[cid - 1 := ?c])) = not_returned (consumers s)" by simp
  then have "not_returned ((consumers s)[cid - 1 := ?c]) < not_returned (consumers s)" by simp
  then show ?thesis
    unfolding returns(7) main_measure_def producer_left_def by simp
qed

lemma consumer_idle:
  "cid = 0 \<or> length (consumers s) < cid \<or> c_returned (consumers s ! (cid - 1))
     \<or> cid \<in> set (condition_m (queue s)) \<Longrightarrow> consumer cid s = s"
  by (auto simp: consumer_def Let_def)

lemma main_step_measure:
  assumes "main_inv N s" and "is_turn e"
  shows "main_step N e s = s \<or> main_measure N (main_step N e s) < main_measure N s"
proof (cases e)
  case (ProducerTurn k)
  then show ?thesis
    using producer_returned [of s N k] producer_measure [of s N k] by auto
next
  case (ConsumerTurn cid)
  show ?thesis
  proof (cases "cid = 0 \<or> length (consumers s) < cid \<or> c_returned (consumers s ! (cid - 1))
      \<or> cid \<in> set (condition_m (queue s))")
    case True
    then show ?thesis using ConsumerTurn by (simp add: consumer_idle)
  next
    case False
    then have "main_measure N (consumer cid s) < main_measure N s"
      by (intro consumer_measure [OF assms(1)]) auto
    then show ?thesis using ConsumerTurn by simp
  qed
next
  case (SpuriousWakeOf t)
  with assms(2) show ?thesis by simp
qed

lemma consumer_progress:
  assumes "main_inv N s" and "p_returned s" and "1 \<le> cid" and "cid \<le> length (consumers s)"
    and "\<not> c_returned (consumers s ! (cid - 1))"
  shows "main_measure N (consumer cid s) < main_measure N s"
proof -
  from assms(1,2) have "condition_m (queue s) = []" by (simp add: main_inv_def)
  then have "cid \<notin> set (condition_m (queue s))" by simp
  with assms show ?thesis by (intro consumer_measure)
qed

lemma delivered_queued_pending:
  assumes "main_inv N s" and "fifo_inv s"
  shows "c_consumed (consumers s ! 0) @ queue_m (queue s) @ [p_i s..N] = [1..N]"
proof -
  from assms(2) have eq: "c_consumed (consumers s ! 0) @ queue_m (queue s) = [1..p_i s - 1]"
    by (simp add: fifo_inv_def)
  from assms(1) have b: "1 \<le> p_i s" "p_i s \<le> N + 1 \<or> p_i s = 1"
    by (simp_all add: main_inv_def)
  have "[1..p_i s - 1] @ [p_i s..N] = [1..N]"
  proof (cases "p_i s \<le> N")
    case True
    with b(1) show ?thesis by (simp add: upto_split1 [symmetric])
  next
    case False
    with b(2) consider "p_i s = N + 1" | "p_i s = 1" and "N < 1" by auto
    then show ?thesis by cases simp_all
  qed
  with eq show ?thesis by (metis append_assoc)
qed

lemma length_removeAll_distinct:
  "distinct ws \<Longrightarrow> length ws \<le> Suc (length (removeAll t ws))"
  by (induction ws) auto

lemma spurious_measure:
  assumes "main_inv N s"
  shows "main_measure N (main_step N (SpuriousWakeOf t) s) \<le> Suc (main_measure N s)"
proof -
  from assms have "distinct (condition_m (queue s))" by (simp add: main_inv_def)
  then have "length (condition_m (queue s)) \<le> Suc (length (removeAll t (condition_m (queue s))))"
    by (rule length_removeAll_distinct)
  then show ?thesis
    by (simp add: main_measure_def producer_left_def)
qed

lemma effective_turns_bound:
  "main_inv N s \<Longrightarrow>
     effective_turns N es s + main_measure N (main_run N es s)
       \<le> main_measure N s + spurious_wakes es"
proof (induction es arbitrary: s)
  case Nil
  then show ?case by simp
next
  case (Cons e es)
  let ?s1 = "main_step N e s"
  have inv1: "main_inv N ?s1" using Cons.prems by (rule main_step_inv)
  have ih: "effective_turns N es ?s1 + main_measure N (main_run N es ?s1)
              \<le> main_measure N ?s1 + spurious_wakes es"
    using inv1 by (rule Cons.IH)
  show ?case
  proof (cases "is_turn e")
    case True
    from main_step_measure [OF Cons.prems True]
    have "(if ?s1 \<noteq> s then 1 else 0) + main_measure N ?s1 \<le> main_measure N s"
      by auto
    with ih True show ?thesis by simp
  next
    case False
    then obtain t where e: "e = SpuriousWakeOf t" by (cases e) auto
    from spurious_measure [OF Cons.prems, of t] e
    have "main_measure N ?s1 \<le> Suc (main_measure N s)" by simp
    with ih False show ?thesis by simp
  qed
qed

lemma main_measure_init:
  "main_measure N (main_init junk) = (nat N + 1) * (length junk + 3) + 3 * length junk"
proof -
  have "not_returned (map (\<lambda>v. \<lparr>c_item = v, c_count = 0, c_consumed = [], c_returned = False\<rparr>) junk)
          = length junk"
    by (induction junk) (simp_all add: not_returned_def)
  then show ?thesis
    by (simp add: main_measure_def producer_left_def main_init_def ThreadSafeQueue_init_def)
qed

lemma effective_turns_init:
  "effective_turns N es (main_init junk)
     \<le> (nat N + 1) * (length junk + 3) + 3 * length junk + spurious_wakes es"
  using effective_turns_bound [OF main_inv_init, of N es junk]
  by (simp add: main_measure_init)

text \<open>Once the queue is closed, the program only takes items out.\<close>

lemma consumer_closed:
  assumes "finished_m (queue s)"
  shows "suffix (queue_m (queue (consumer cid s))) (queue_m (queue s))
       \<and> finished_m (queue (consumer cid s))"
proof (cases rule: consumer_cases [of cid s])
  case idle
  with assms show ?thesis by simp
next
  case blocks
  with assms show ?thesis by simp
next
  case (takes x xs)
  have "suffix xs (x # xs)" by (simp add: suffix_Cons)
  with assms takes show ?thesis by simp
next
  case returns
  with assms show ?thesis by simp
qed

lemma main_step_closed:
  assumes "main_inv N s" and "finished_m (queue s)"
  shows "suffix (queue_m (queue (main_step N e s))) (queue_m (queue s))
       \<and> finished_m (queue (main_step N e s))"
proof (cases e)
  case (ProducerTurn k)
  from assms have "p_returned s" by (simp add: main_inv_def)
  then have "producer N k s = s" by (rule producer_returned)
  with ProducerTurn assms(2) show ?thesis by simp
next
  case (ConsumerTurn cid)
  with consumer_closed [OF assms(2), of cid] show ?thesis by simp
next
  case (SpuriousWakeOf t)
  with assms(2) show ?thesis by simp
qed

lemma main_run_closed:
  "main_inv N s \<Longrightarrow> finished_m (queue s) \<Longrightarrow>
     suffix (queue_m (queue (main_run N es s))) (queue_m (queue s))
     \<and> finished_m (queue (main_run N es s))"
proof (induction es arbitrary: s)
  case Nil
  then show ?case by simp
next
  case (Cons e es)
  let ?s1 = "main_step N e s"
  have inv1: "main_inv N ?s1" using Cons.prems(1) by (rule main_step_inv)
  from main_step_closed [OF Cons.prems] have
    s1: "suffix (queue_m (queue ?s1)) (queue_m (queue s))" and f1: "finished_m (queue ?s1)"
    by simp_all
  from Cons.IH [OF inv1 f1] have
    "suffix (queue_m (queue (main_run N es ?s1))) (queue_m (queue ?s1))"
    and f: "finished_m (queue (main_run N es ?s1))" by simp_all
  with s1 have "suffix (queue_m (queue (main_run N es ?s1))) (queue_m (queue s))"
    by (meson suffix_order.trans)
  with f show ?case by simp
qed

lemma history_closed:
  assumes "finished_m q" and "run_history h q = (log, q')" and "pushed log = []"
  shows "suffix (queue_m q') (queue_m q) \<and> finished_m q'"
proof -
  from run_history_fifo [OF assms(2)] assms(3)
  have "queue_m q = popped log @ queue_m q'" by simp
  then have "suffix (queue_m q') (queue_m q)" by (rule suffixI)
  moreover have "finished_m q'" using assms(2,1) by (rule run_history_finished)
  ultimately show ?thesis by simp
qed

text \<open>The items of all consumers, and what a \<^verbatim>\<open>pop\<close> that returns \<^verbatim>\<open>false\<close> has seen.\<close>

lemma mset_consumed_update:
  assumes "j < length cs"
  shows "mset (all_consumed (cs[j := c])) + mset (c_consumed (cs ! j))
           = mset (all_consumed cs) + mset (c_consumed c)"
  using assms
proof (induction cs arbitrary: j)
  case Nil
  then show ?case by simp
next
  case (Cons a cs)
  show ?case
  proof (cases j)
    case 0
    then show ?thesis by (simp add: all_consumed_def)
  next
    case (Suc i)
    with Cons.prems have "i < length cs" by simp
    from Cons.IH [OF this] Suc show ?thesis
      by (simp add: all_consumed_def)
  qed
qed

lemma mset_inv_init: "mset_inv (main_init junk)"
  by (induction junk)
     (simp_all add: mset_inv_def main_init_def ThreadSafeQueue_init_def all_consumed_def)

lemma producer_mset:
  assumes "main_inv N s" and "mset_inv s"
  shows "mset_inv (producer N k s)"
proof -
  from assms(1) have "1 \<le> p_i s" by (simp add: main_inv_def)
  then have "[1..p_i s] = [1..p_i s - 1] @ [p_i s]" by (rule upto_rec2)
  with assms(2) show ?thesis
    by (simp add: mset_inv_def producer_def push_def finish_def)
qed

lemma consumer_mset:
  assumes "mset_inv s"
  shows "mset_inv (consumer cid s)"
proof (cases rule: consumer_cases [of cid s])
  case idle
  with assms show ?thesis by simp
next
  case blocks
  with assms show ?thesis by (simp add: mset_inv_def)
next
  case (takes x xs)
  let ?c = "(consumers s ! (cid - 1))\<lparr>c_item := x,
               c_count := c_count (consumers s ! (cid - 1)) + 1,
               c_consumed := c_consumed (consumers s ! (cid - 1)) @ [x]\<rparr>"
  have "cid - 1 < length (consumers s)" using takes(1,2) by simp
  from mset_consumed_update [OF this, of ?c]
  have "mset (all_consumed ((consumers s)[cid - 1 := ?c]))
          = mset (all_consumed (consumers s)) + {#x#}"
    by simp
  with assms takes(5,6) show ?thesis by (simp add: mset_inv_def)
next
  case returns
  let ?c = "(consumers s ! (cid - 1))\<lparr>c_returned := True\<rparr>"
  have "cid - 1 < length (consumers s)" using returns(1,2) by simp
  from mset_consumed_update [OF this, of ?c]
  have "mset (all_consumed ((consumers s)[cid - 1 := ?c])) = mset (all_consumed (consumers s))"
    by simp
  with assms returns(7) show ?thesis by (simp add: mset_inv_def)
qed

lemma main_step_mset: "main_inv N s \<Longrightarrow> mset_inv s \<Longrightarrow> mset_inv (main_step N e s)"
  by (cases e) (simp_all add: producer_mset consumer_mset, simp add: mset_inv_def)

lemma main_run_mset: "main_inv N s \<Longrightarrow> mset_inv s \<Longrightarrow> mset_inv (main_run N es s)"
  by (induction es arbitrary: s) (simp_all add: main_step_mset main_step_inv)

lemma pushed_and_pending:
  assumes "main_inv N s"
  shows "[1..p_i s - 1] @ [p_i s..N] = [1..N]"
proof -
  from assms have b: "1 \<le> p_i s" "p_i s \<le> N + 1 \<or> p_i s = 1"
    by (simp_all add: main_inv_def)
  show ?thesis
  proof (cases "p_i s \<le> N")
    case True
    with b(1) show ?thesis by (simp add: upto_split1 [symmetric])
  next
    case False
    with b(2) consider "p_i s = N + 1" | "p_i s = 1" and "N < 1" by auto
    then show ?thesis by cases simp_all
  qed
qed

lemma consumed_queued_pending:
  assumes "main_inv N s" and "mset_inv s"
  shows "mset (all_consumed (consumers s)) + mset (queue_m (queue s)) + mset [p_i s..N]
           = mset [1..N]"
proof -
  have "mset [1..N] = mset ([1..p_i s - 1] @ [p_i s..N])"
    using pushed_and_pending [OF assms(1)] by simp
  also have "\<dots> = mset [1..p_i s - 1] + mset [p_i s..N]" by simp
  finally show ?thesis using assms(2) by (simp add: mset_inv_def)
qed

lemma all_delivered:
  assumes "main_inv N s" and "mset_inv s" and "j < length (consumers s)"
    and "c_returned (consumers s ! j)"
  shows "mset (all_consumed (consumers s)) = mset [1..N]
       \<and> length (all_consumed (consumers s)) = nat N
       \<and> distinct (all_consumed (consumers s))"
proof -
  from assms(1,3,4) have e: "queue_m (queue s) = []" and f: "finished_m (queue s)"
    by (auto simp: main_inv_def)
  from assms(1) f have "N < p_i s" by (auto simp: main_inv_def)
  then have "[p_i s..N] = []" by simp
  with consumed_queued_pending [OF assms(1,2)] e
  have m: "mset (all_consumed (consumers s)) = mset [1..N]" by simp
  then have "size (mset (all_consumed (consumers s))) = size (mset [1..N])" by simp
  then have l: "length (all_consumed (consumers s)) = nat N" by simp
  have "distinct (all_consumed (consumers s)) = distinct [1..N]"
    using m by (rule mset_eq_imp_distinct_iff)
  then have "distinct (all_consumed (consumers s))" by simp
  with m l show ?thesis by simp
qed

lemma exec_false_pop:
  "exec t c q0 = (Popped False w, q1) \<Longrightarrow> finished_m q0 \<and> queue_m q0 = [] \<and> q1 = q0"
  by (cases c)
     (auto simp: exec_def pop_def wait_pred_def split: if_splits list.splits)

lemma exec_no_waiters:
  "exec t c q = (r, q') \<Longrightarrow> (finished_m q \<longrightarrow> condition_m q = []) \<Longrightarrow>
     (finished_m q' \<longrightarrow> condition_m q' = [])"
  by (cases c)
     (auto simp: exec_def push_def pop_def finish_def wait_pred_def notify_one_def notify_all_def
           split: if_splits list.splits)

lemma run_history_no_waiters:
  "run_history h q = (log, q') \<Longrightarrow> (finished_m q \<longrightarrow> condition_m q = []) \<Longrightarrow>
     (finished_m q' \<longrightarrow> condition_m q' = [])"
proof (induction h arbitrary: q log q')
  case Nil
  then show ?case by simp
next
  case (Cons e h)
  obtain t c where e: "e = (t, c)" by (cases e)
  obtain r q1 where ex: "exec t c q = (r, q1)" by (cases "exec t c q")
  obtain log1 q2 where run: "run_history h q1 = (log1, q2)" by (cases "run_history h q1")
  from Cons.prems(1) e ex run have q': "q' = q2" by simp
  have "finished_m q1 \<longrightarrow> condition_m q1 = []"
    using ex Cons.prems(2) by (rule exec_no_waiters)
  with Cons.IH [OF run] q' show ?case by simp
qed

subsection \<open>The claims about the signaling queue\<close>

text \<open>
  A run of the program with two items and one consumer: the consumer is suspended by its
  first \<^verbatim>\<open>pop\<close>, woken by the first \<^verbatim>\<open>push\<close>, and returns after \<^verbatim>\<open>finish\<close> with 1 and 2.
\<close>

lemma main_example:
  "main_run 2
     [ConsumerTurn 1, ProducerTurn 0, ConsumerTurn 1, ProducerTurn 0, ProducerTurn 0,
      ConsumerTurn 1, ConsumerTurn 1]
     (main_init [7])
   = \<lparr>queue = \<lparr>queue_m = [], finished_m = True, condition_m = []\<rparr>, p_i = 3,
      p_returned = True,
      consumers = [\<lparr>c_item = 2, c_count = 2, c_consumed = [1, 2], c_returned = True\<rparr>]\<rparr>"
  by (simp add: producer_def consumer_def push_def pop_def finish_def wait_pred_def
      notify_one_def notify_all_def main_init_def ThreadSafeQueue_init_def)

text \<open>
  Claim C1. The program runs one \<^verbatim>\<open>producer(queue, num_items)\<close>, which pushes 1, 2, ...,
  \<^verbatim>\<open>num_items\<close> and then calls \<^verbatim>\<open>finish\<close>, and one \<^verbatim>\<open>consumer\<close>, which calls \<^verbatim>\<open>pop\<close> until
  it returns \<^verbatim>\<open>false\<close> (\<^verbatim>\<open>num_items\<close> below the largest \<^verbatim>\<open>int\<close>, so that \<^verbatim>\<open>++i\<close> does not
  overflow). After any schedule, with any spurious wake-ups:
  \<^item> the items the consumer has popped with \<^verbatim>\<open>true\<close>, then the items queued, then the items
    not pushed yet, are 1, ..., \<^verbatim>\<open>num_items\<close> in this order;
  \<^item> once the consumer has returned, the items it popped are exactly 1, ..., \<^verbatim>\<open>num_items\<close>;
  \<^item> the program does return: while the producer has not returned its turn makes the
    measure of the remaining work smaller, afterwards the consumer's turn does, and a
    turn of a thread either changes nothing or makes it smaller; a schedule has at most
    \<open>4 * (num_items + 1) + 3\<close> turns that change the state (7 when \<^verbatim>\<open>num_items\<close> is
    negative), and one more for each spurious wake-up.
  For any number of consumers and any history of calls whose pushes are 1, ...,
  \<^verbatim>\<open>num_items\<close> in order, the items popped with \<^verbatim>\<open>true\<close>, in the order of the pops, followed
  by the queued items are 1, ..., \<^verbatim>\<open>num_items\<close>. Each \<^verbatim>\<open>pop\<close> that finds an item removes the
  front item and returns it with \<^verbatim>\<open>true\<close>.
\<close>

theorem fifo_order:
  assumes "num_items < 2147483647" and "s = main_run num_items es (main_init [junk])"
  shows "c_consumed (consumers s ! 0) @ queue_m (queue s) @ [p_i s..num_items] = [1..num_items]
       \<and> (c_returned (consumers s ! 0) \<longrightarrow> c_consumed (consumers s ! 0) = [1..num_items])
       \<and> (\<not> p_returned s \<longrightarrow>
            main_measure num_items (producer num_items k s) < main_measure num_items s)
       \<and> (p_returned s \<and> \<not> c_returned (consumers s ! 0) \<longrightarrow>
            main_measure num_items (consumer 1 s) < main_measure num_items s)
       \<and> (\<forall>e. is_turn e \<longrightarrow> main_step num_items e s = s
              \<or> main_measure num_items (main_step num_items e s) < main_measure num_items s)
       \<and> effective_turns num_items es (main_init [junk])
            \<le> (nat num_items + 1) * 4 + 3 + spurious_wakes es
       \<and> (\<forall>h log q. run_history h ThreadSafeQueue_init = (log, q)
              \<and> pushed log = [1..num_items] \<longrightarrow> popped log @ queue_m q = [1..num_items])
       \<and> (\<forall>q0 x xs t item. queue_m q0 = x # xs \<longrightarrow>
             pop t item q0 = (Returns (True, x), q0\<lparr>queue_m := xs\<rparr>))"
proof -
  have inv: "main_inv num_items s"
    unfolding assms(2) by (intro main_run_inv main_inv_init)
  have fifo: "fifo_inv s"
    unfolding assms(2) by (intro main_run_fifo main_inv_init fifo_inv_init)
  then have one: "length (consumers s) = 1" by (simp add: fifo_inv_def)
  have 1: "c_consumed (consumers s ! 0) @ queue_m (queue s) @ [p_i s..num_items] = [1..num_items]"
    using inv fifo by (rule delivered_queued_pending)
  have 2: "c_consumed (consumers s ! 0) = [1..num_items]" if "c_returned (consumers s ! 0)"
    using inv fifo that by (rule returned_all_delivered)
  have 3: "main_measure num_items (producer num_items k s) < main_measure num_items s"
    if "\<not> p_returned s"
    using that by (rule producer_measure)
  have 4: "main_measure num_items (consumer 1 s) < main_measure num_items s"
    if "p_returned s" and "\<not> c_returned (consumers s ! 0)"
    using that one by (intro consumer_progress [OF inv]) simp_all
  have 5: "main_step num_items e s = s
      \<or> main_measure num_items (main_step num_items e s) < main_measure num_items s"
    if "is_turn e" for e
    using inv that by (rule main_step_measure)
  have 6: "popped log @ queue_m q = [1..num_items]"
    if "run_history h ThreadSafeQueue_init = (log, q)" and "pushed log = [1..num_items]"
    for h log q
    using run_history_fifo [OF that(1)] that(2) by (simp add: ThreadSafeQueue_init_def)
  have 8: "effective_turns num_items es (main_init [junk])
            \<le> (nat num_items + 1) * 4 + 3 + spurious_wakes es"
    using effective_turns_init [of num_items es "[junk]"] by simp
  have 7: "pop t item q0 = (Returns (True, x), q0\<lparr>queue_m := xs\<rparr>)"
    if "queue_m q0 = x # xs" for q0 x xs t item
    using that by (rule pop_front)
  from 1 2 3 4 5 6 7 8 show ?thesis by blast
qed

theorem fifo_order_witness:
  "(2::int) < 2147483647
   \<and> c_returned (consumers (main_run 2
        [ConsumerTurn 1, ProducerTurn 0, ConsumerTurn 1, ProducerTurn 0, ProducerTurn 0,
         ConsumerTurn 1, ConsumerTurn 1] (main_init [7])) ! 0)
   \<and> c_consumed (consumers (main_run 2
        [ConsumerTurn 1, ProducerTurn 0, ConsumerTurn 1, ProducerTurn 0, ProducerTurn 0,
         ConsumerTurn 1, ConsumerTurn 1] (main_init [7])) ! 0) = [1, 2]"
proof -
  have small: "(2::int) < 2147483647" by simp
  show ?thesis
    unfolding main_example
    using fifo_order [OF small main_example [symmetric], where k = 0]
    by (simp add: upto_rec1)
qed

text \<open>
  A run of the program with three items and two consumers: consumer 2 is suspended first,
  the items go to consumers 1, 2 and 1, and both consumers return after \<^verbatim>\<open>finish\<close>.
\<close>

lemma two_consumers_example:
  "main_run 3
     [ConsumerTurn 2, ProducerTurn 0, ConsumerTurn 1, ProducerTurn 0, ConsumerTurn 2,
      ProducerTurn 0, ConsumerTurn 1, ProducerTurn 0, ConsumerTurn 1, ConsumerTurn 2]
     (main_init [7, 8])
   = \<lparr>queue = \<lparr>queue_m = [], finished_m = True, condition_m = []\<rparr>, p_i = 4,
      p_returned = True,
      consumers = [\<lparr>c_item = 3, c_count = 2, c_consumed = [1, 3], c_returned = True\<rparr>,
                   \<lparr>c_item = 2, c_count = 1, c_consumed = [2], c_returned = True\<rparr>]\<rparr>"
  by (simp add: producer_def consumer_def push_def pop_def finish_def wait_pred_def
      notify_one_def notify_all_def main_init_def ThreadSafeQueue_init_def)

text \<open>
  Claim C2. For any history of calls on a fresh queue, by any number of pushing and
  popping threads:
  \<^item> the items popped with \<^verbatim>\<open>true\<close> together with the items still queued are, as a
    multiset, the items pushed; when the history ends with a \<^verbatim>\<open>pop\<close> that returned
    \<^verbatim>\<open>false\<close>, the queue is closed and empty and the popped items are the pushed items as a
    multiset, and as many;
  \<^item> a \<^verbatim>\<open>pop\<close> returns \<^verbatim>\<open>false\<close> only on a closed, empty queue, and changes nothing; a \<^verbatim>\<open>pop\<close>
    that finds an item returns it and removes it;
  \<^item> once the queue is closed nobody is left suspended, as many \<^verbatim>\<open>pop\<close> calls as there
    are items return all of them with \<^verbatim>\<open>true\<close>, and the next \<^verbatim>\<open>pop\<close> returns \<^verbatim>\<open>false\<close>.
  For the program, with any number of consumers, after any schedule (\<^verbatim>\<open>num_items\<close> below the
  largest \<^verbatim>\<open>int\<close>):
  \<^item> the items consumed by all consumers, the items queued and the items not pushed yet
    are together, as a multiset, 1, ..., \<^verbatim>\<open>num_items\<close>;
  \<^item> once some consumer has returned (its \<^verbatim>\<open>pop\<close> returned \<^verbatim>\<open>false\<close>), the consumed items
    are exactly 1, ..., \<^verbatim>\<open>num_items\<close> as a multiset: \<^verbatim>\<open>num_items\<close> of them, no two equal;
  \<^item> the drain ends: while the producer has not returned its turn makes the measure of
    the remaining work smaller, afterwards the turn of every consumer that has not
    returned does, a turn never makes it larger, and the turns that change the state are
    bounded in number, with one more for each spurious wake-up.
\<close>

theorem no_loss_no_duplication:
  assumes "num_items < 2147483647"
    and "s = main_run num_items es (main_init junk)"
    and "run_history h ThreadSafeQueue_init = (log, q)"
  shows "mset (popped log) + mset (queue_m q) = mset (pushed log)
       \<and> (log \<noteq> [] \<and> snd (snd (last log)) = Popped False v \<longrightarrow>
            mset (popped log) = mset (pushed log)
          \<and> length (popped log) = length (pushed log)
          \<and> finished_m q \<and> queue_m q = [])
       \<and> (\<forall>t c q0 w q1. exec t c q0 = (Popped False w, q1) \<longrightarrow>
            finished_m q0 \<and> queue_m q0 = [] \<and> q1 = q0)
       \<and> (\<forall>q0 x xs t item. queue_m q0 = x # xs \<longrightarrow>
            pop t item q0 = (Returns (True, x), q0\<lparr>queue_m := xs\<rparr>))
       \<and> (finished_m q \<longrightarrow>
            condition_m q = []
          \<and> (\<forall>cs. length cs = length (queue_m q) \<longrightarrow>
                pops cs q = (map (\<lambda>x. Returns (True, x)) (queue_m q), q\<lparr>queue_m := []\<rparr>))
          \<and> (\<forall>t item. pop t item (q\<lparr>queue_m := []\<rparr>)
                = (Returns (False, item), q\<lparr>queue_m := []\<rparr>)))
       \<and> mset (all_consumed (consumers s)) + mset (queue_m (queue s)) + mset [p_i s..num_items]
            = mset [1..num_items]
       \<and> (\<forall>j < length (consumers s). c_returned (consumers s ! j) \<longrightarrow>
            mset (all_consumed (consumers s)) = mset [1..num_items]
          \<and> length (all_consumed (consumers s)) = nat num_items
          \<and> distinct (all_consumed (consumers s)))
       \<and> (\<not> p_returned s \<longrightarrow>
            main_measure num_items (producer num_items k s) < main_measure num_items s)
       \<and> (\<forall>j < length (consumers s). p_returned s \<and> \<not> c_returned (consumers s ! j) \<longrightarrow>
            main_measure num_items (consumer (Suc j) s) < main_measure num_items s)
       \<and> (\<forall>e. is_turn e \<longrightarrow> main_step num_items e s = s
              \<or> main_measure num_items (main_step num_items e s) < main_measure num_items s)
       \<and> effective_turns num_items es (main_init junk)
            \<le> (nat num_items + 1) * (length junk + 3) + 3 * length junk + spurious_wakes es"
proof -
  have eq: "popped log @ queue_m q = pushed log"
    using run_history_fifo [OF assms(3)] by (simp add: ThreadSafeQueue_init_def)
  then have "mset (popped log @ queue_m q) = mset (pushed log)" by simp
  then have h1: "mset (popped log) + mset (queue_m q) = mset (pushed log)" by simp
  have h2: "mset (popped log) = mset (pushed log)
          \<and> length (popped log) = length (pushed log)
          \<and> finished_m q \<and> queue_m q = []"
    if ne: "log \<noteq> []" and lst: "snd (snd (last log)) = Popped False v"
  proof -
    obtain t c where "last log = (t, c, Popped False v)"
      using lst by (cases "last log") auto
    from run_history_last_false [OF assms(3) ne this] eq show ?thesis by simp
  qed
  have h3: "finished_m q0 \<and> queue_m q0 = [] \<and> q1 = q0"
    if "exec t c q0 = (Popped False w, q1)" for t c q0 w q1
    using that by (rule exec_false_pop)
  have h4: "pop t item q0 = (Returns (True, x), q0\<lparr>queue_m := xs\<rparr>)"
    if "queue_m q0 = x # xs" for q0 x xs t item
    using that by (rule pop_front)
  have h5: "condition_m q = []
          \<and> (\<forall>cs. length cs = length (queue_m q) \<longrightarrow>
                pops cs q = (map (\<lambda>x. Returns (True, x)) (queue_m q), q\<lparr>queue_m := []\<rparr>))
          \<and> (\<forall>t item. pop t item (q\<lparr>queue_m := []\<rparr>)
                = (Returns (False, item), q\<lparr>queue_m := []\<rparr>))"
    if f: "finished_m q"
  proof -
    have "finished_m q \<longrightarrow> condition_m q = []"
      using assms(3) by (rule run_history_no_waiters) (simp add: ThreadSafeQueue_init_def)
    with f have a: "condition_m q = []" by simp
    have b: "pops cs q = (map (\<lambda>x. Returns (True, x)) (queue_m q), q\<lparr>queue_m := []\<rparr>)"
      if "length cs = length (queue_m q)" for cs
      using f that by (rule pops_closed)
    have c: "pop t item (q\<lparr>queue_m := []\<rparr>) = (Returns (False, item), q\<lparr>queue_m := []\<rparr>)"
      for t item
      by (rule pop_drained) (simp_all add: f)
    from a b c show ?thesis by blast
  qed
  have inv: "main_inv num_items s"
    unfolding assms(2) by (intro main_run_inv main_inv_init)
  have minv: "mset_inv s"
    unfolding assms(2) by (intro main_run_mset main_inv_init mset_inv_init)
  have p1: "mset (all_consumed (consumers s)) + mset (queue_m (queue s))
              + mset [p_i s..num_items] = mset [1..num_items]"
    using inv minv by (rule consumed_queued_pending)
  have p2: "mset (all_consumed (consumers s)) = mset [1..num_items]
          \<and> length (all_consumed (consumers s)) = nat num_items
          \<and> distinct (all_consumed (consumers s))"
    if "j < length (consumers s)" and "c_returned (consumers s ! j)" for j
    using inv minv that by (rule all_delivered)
  have p3: "main_measure num_items (producer num_items k s) < main_measure num_items s"
    if "\<not> p_returned s"
    using that by (rule producer_measure)
  have p4: "main_measure num_items (consumer (Suc j) s) < main_measure num_items s"
    if "j < length (consumers s)" and "p_returned s" and "\<not> c_returned (consumers s ! j)" for j
    using that by (intro consumer_progress [OF inv]) simp_all
  have p5: "main_step num_items e s = s
      \<or> main_measure num_items (main_step num_items e s) < main_measure num_items s"
    if "is_turn e" for e
    using inv that by (rule main_step_measure)
  have p6: "effective_turns num_items es (main_init junk)
            \<le> (nat num_items + 1) * (length junk + 3) + 3 * length junk + spurious_wakes es"
    by (rule effective_turns_init)
  from h1 h2 h3 h4 h5 p1 p2 p3 p4 p5 p6 show ?thesis by blast
qed

theorem no_loss_no_duplication_witness:
  "(3::int) < 2147483647
   \<and> all_consumed (consumers (main_run 3
        [ConsumerTurn 2, ProducerTurn 0, ConsumerTurn 1, ProducerTurn 0, ConsumerTurn 2,
         ProducerTurn 0, ConsumerTurn 1, ProducerTurn 0, ConsumerTurn 1, ConsumerTurn 2]
        (main_init [7, 8]))) = [1, 3, 2]
   \<and> mset (all_consumed (consumers (main_run 3
        [ConsumerTurn 2, ProducerTurn 0, ConsumerTurn 1, ProducerTurn 0, ConsumerTurn 2,
         ProducerTurn 0, ConsumerTurn 1, ProducerTurn 0, ConsumerTurn 1, ConsumerTurn 2]
        (main_init [7, 8])))) = mset [1..3]
   \<and> mset (popped (fst (run_history
       [(1, Pop 0), (0, Push 1 0), (1, Pop 0), (0, Push 2 0), (0, Finish), (1, Pop 1),
        (1, Pop 2)] ThreadSafeQueue_init)))
     = mset (pushed (fst (run_history
       [(1, Pop 0), (0, Push 1 0), (1, Pop 0), (0, Push 2 0), (0, Finish), (1, Pop 1),
        (1, Pop 2)] ThreadSafeQueue_init)))"
proof -
  have small: "(3::int) < 2147483647" by simp
  have c: "all_consumed [\<lparr>c_item = 3, c_count = 2, c_consumed = [1, 3], c_returned = True\<rparr>,
                   \<lparr>c_item = 2, c_count = 1, c_consumed = [2], c_returned = True\<rparr>] = [1, 3, 2]"
    by (simp add: all_consumed_def)
  show ?thesis
    unfolding two_consumers_example example_history
    using no_loss_no_duplication
      [OF small two_consumers_example [symmetric] example_history, where v = 2 and k = 0]
      small c
    by simp
qed

text \<open>
  Claim C3. In a state with \<^verbatim>\<open>finished_\<close> true and no items (DRAINED), a call to \<^verbatim>\<open>pop\<close>
  by any thread returns \<^verbatim>\<open>false\<close> at once: it does not suspend the caller, it leaves the
  caller's variable and the queue as they were. The state is therefore still DRAINED, and
  every further call of any sequence of \<^verbatim>\<open>pop\<close> calls returns \<^verbatim>\<open>false\<close> too.
\<close>

theorem pop_after_drain_returns_false:
  assumes "finished_m q" and "queue_m q = []"
  shows "pop t item q = (Returns (False, item), q)
       \<and> pops cs q = (map (\<lambda>(t, item). Returns (False, item)) cs, q)"
  using assms by (simp add: pop_drained pops_drained)

theorem pop_after_drain_returns_false_witness:
  "pop 1 0 (finish ThreadSafeQueue_init) = (Returns (False, 0), finish ThreadSafeQueue_init)
   \<and> pops [(1, 0), (2, 5)] (finish ThreadSafeQueue_init)
       = ([Returns (False, 0), Returns (False, 5)], finish ThreadSafeQueue_init)"
proof -
  have closed: "finished_m (finish ThreadSafeQueue_init)"
    by (simp add: finish_def)
  have empty: "queue_m (finish ThreadSafeQueue_init) = []"
    by (simp add: finish_def ThreadSafeQueue_init_def)
  show ?thesis
    using pop_after_drain_returns_false [OF closed empty, of 1 0 "[(1, 0), (2, 5)]"]
    by (simp del: pops.simps)
qed

text \<open>
  The producer of two items has pushed both and called \<^verbatim>\<open>finish\<close>; two consumers have not
  run yet.
\<close>

lemma closed_example:
  "main_run 2 [ProducerTurn 0, ProducerTurn 0, ProducerTurn 0] (main_init [7, 8])
   = \<lparr>queue = \<lparr>queue_m = [1, 2], finished_m = True, condition_m = []\<rparr>, p_i = 3,
      p_returned = True,
      consumers = [\<lparr>c_item = 7, c_count = 0, c_consumed = [], c_returned = False\<rparr>,
                   \<lparr>c_item = 8, c_count = 0, c_consumed = [], c_returned = False\<rparr>]\<rparr>"
  by (simp add: producer_def push_def finish_def notify_one_def notify_all_def
      main_init_def ThreadSafeQueue_init_def)

text \<open>
  Claim C5. Once \<^verbatim>\<open>finished_\<close> is true no item is appended any more:
  \<^item> in the program, whose producer calls \<^verbatim>\<open>finish\<close> after its last \<^verbatim>\<open>push\<close>, from any
    reachable state with \<^verbatim>\<open>finished_\<close> true and after any further schedule, with any number
    of consumers, the queue is closed and its items are a suffix of the items it held;
  \<^item> for the queue alone, from any closed state and through any history in which no
    caller pushes, the queue stays closed and its items are a suffix of the items it
    held: \<^verbatim>\<open>pop\<close> takes the front item or nothing, \<^verbatim>\<open>finish\<close> and \<^verbatim>\<open>size\<close> leave the items.
  Pushing after \<^verbatim>\<open>finish\<close> is not checked and not signalled: \<^verbatim>\<open>push\<close> by a running thread on
  a closed queue answers as on an open one and appends its item.
\<close>

theorem no_append_after_finish:
  assumes "num_items < 2147483647" and "s = main_run num_items es (main_init junk)"
    and "finished_m (queue s)"
  shows "suffix (queue_m (queue (main_run num_items es' s))) (queue_m (queue s))
       \<and> finished_m (queue (main_run num_items es' s))
       \<and> (\<forall>q h log q'. finished_m q \<and> run_history h q = (log, q') \<and> pushed log = [] \<longrightarrow>
             suffix (queue_m q') (queue_m q) \<and> finished_m q')
       \<and> (\<forall>q t item. finished_m q \<longrightarrow> queue_m (snd (pop t item q)) = tl (queue_m q))
       \<and> (\<forall>q. queue_m (finish q) = queue_m q)
       \<and> (\<forall>q t v k. finished_m q \<and> t \<notin> set (condition_m q) \<longrightarrow>
             exec t (Push v k) q = (Pushed, push k v q)
             \<and> queue_m (push k v q) = queue_m q @ [v] \<and> finished_m (push k v q))"
proof -
  have inv: "main_inv num_items s"
    unfolding assms(2) by (intro main_run_inv main_inv_init)
  have 1: "suffix (queue_m (queue (main_run num_items es' s))) (queue_m (queue s))
       \<and> finished_m (queue (main_run num_items es' s))"
    using inv assms(3) by (rule main_run_closed)
  have 2: "suffix (queue_m q') (queue_m q) \<and> finished_m q'"
    if "finished_m q" and "run_history h q = (log, q')" and "pushed log = []" for q h log q'
    using that by (rule history_closed)
  have 3: "queue_m (snd (pop t item q)) = tl (queue_m q)" if "finished_m q" for q t item
    using that by (rule pop_closed_items)
  have 4: "queue_m (finish q) = queue_m q" for q
    by (simp add: finish_def)
  have 5: "exec t (Push v k) q = (Pushed, push k v q)
             \<and> queue_m (push k v q) = queue_m q @ [v] \<and> finished_m (push k v q)"
    if "finished_m q" and "t \<notin> set (condition_m q)" for q t v k
    using that by (simp add: exec_def push_def)
  from 1 2 3 4 5 show ?thesis by blast
qed

theorem no_append_after_finish_witness:
  "(2::int) < 2147483647
   \<and> finished_m (queue (main_run 2 [ProducerTurn 0, ProducerTurn 0, ProducerTurn 0]
        (main_init [7, 8])))
   \<and> queue_m (queue (main_run 2 [ProducerTurn 0, ProducerTurn 0, ProducerTurn 0]
        (main_init [7, 8]))) = [1, 2]
   \<and> suffix (queue_m (queue (main_run 2 [ConsumerTurn 2]
        (main_run 2 [ProducerTurn 0, ProducerTurn 0, ProducerTurn 0] (main_init [7, 8])))))
        [1, 2]"
proof -
  have small: "(2::int) < 2147483647" by simp
  have closed: "finished_m (queue (main_run 2 [ProducerTurn 0, ProducerTurn 0, ProducerTurn 0]
        (main_init [7, 8])))"
    unfolding closed_example by simp
  show ?thesis
    using no_append_after_finish [OF small refl closed, of "[ConsumerTurn 2]"] small closed
    unfolding closed_example by simp
qed

text \<open>The misuse, unchecked: \<^verbatim>\<open>finish\<close> on a fresh queue, then \<^verbatim>\<open>push(7)\<close>.\<close>

lemma push_after_finish_example:
  "run_history [(0, Finish), (0, Push 7 0)] ThreadSafeQueue_init
   = ([(0, Finish, Finished), (0, Push 7 0, Pushed)],
      \<lparr>queue_m = [7], finished_m = True, condition_m = []\<rparr>)"
  by (simp add: exec_def push_def finish_def notify_one_def notify_all_def
      ThreadSafeQueue_init_def)

text \<open>
  Claim C6. \<^verbatim>\<open>finish\<close> is idempotent: the state after two calls is the state after one, in
  every component, so every history of further calls gives the same responses and the
  same final state after two calls as after one.
\<close>

theorem finish_idempotent:
  "finish (finish q) = finish q
   \<and> run_history h (finish (finish q)) = run_history h (finish q)"
  by (simp add: finish_def notify_all_def)

theorem finish_idempotent_witness:
  "finish (finish \<lparr>queue_m = [4, 5], finished_m = False, condition_m = [2]\<rparr>)
   = \<lparr>queue_m = [4, 5], finished_m = True, condition_m = []\<rparr>"
  using finish_idempotent [of "\<lparr>queue_m = [4, 5], finished_m = False, condition_m = [2]\<rparr>" "[]"]
  by (simp add: finish_def notify_all_def)

text \<open>
  Claim C8. \<^verbatim>\<open>push\<close> is total and unconditional: in every state, open or closed, with any
  number of items, it puts its item at the back, leaves \<^verbatim>\<open>finished_\<close> as it was and makes
  the size one larger; the call of a running thread returns, with no wait and no error.
\<close>

theorem push_unconditional:
  "queue_m (push k v q) = queue_m q @ [v]
   \<and> finished_m (push k v q) = finished_m q
   \<and> queue_size (push k v q) = Suc (queue_size q)
   \<and> (t \<notin> set (condition_m q) \<longrightarrow> exec t (Push v k) q = (Pushed, push k v q))"
  by (simp add: push_def queue_size_def exec_def)

theorem push_unconditional_witness:
  "queue_m (push 0 9 \<lparr>queue_m = [4, 5], finished_m = True, condition_m = [2]\<rparr>) = [4, 5, 9]
   \<and> exec 0 (Push 9 0) \<lparr>queue_m = [4, 5], finished_m = True, condition_m = [2]\<rparr>
       = (Pushed, \<lparr>queue_m = [4, 5, 9], finished_m = True, condition_m = []\<rparr>)"
  using push_unconditional [of 0 9 "\<lparr>queue_m = [4, 5], finished_m = True, condition_m = [2]\<rparr>" 0]
  by (simp add: push_def notify_one_def)

text \<open>
  Claim C9. \<^verbatim>\<open>finish\<close> leaves the items as they are and sets \<^verbatim>\<open>finished_\<close> (it also wakes the
  suspended threads). Every item queued before \<^verbatim>\<open>finish\<close> is returned afterwards: as many
  \<^verbatim>\<open>pop\<close> calls as there are items return these items with \<^verbatim>\<open>true\<close>, front first, and leave
  the queue drained, where the next \<^verbatim>\<open>pop\<close> returns \<^verbatim>\<open>false\<close>.
\<close>

theorem finish_keeps_items:
  "queue_m (finish q) = queue_m q
   \<and> finished_m (finish q)
   \<and> (length cs = length (queue_m q) \<longrightarrow>
        pops cs (finish q)
          = (map (\<lambda>x. Returns (True, x)) (queue_m q), (finish q)\<lparr>queue_m := []\<rparr>)
        \<and> pop t item ((finish q)\<lparr>queue_m := []\<rparr>)
          = (Returns (False, item), (finish q)\<lparr>queue_m := []\<rparr>))"
proof -
  have f: "finished_m (finish q)" and i: "queue_m (finish q) = queue_m q"
    by (simp_all add: finish_def)
  have "pops cs (finish q)
          = (map (\<lambda>x. Returns (True, x)) (queue_m q), (finish q)\<lparr>queue_m := []\<rparr>)"
    if "length cs = length (queue_m q)"
    using pops_closed [OF f, of cs] that i by simp
  moreover have "pop t item ((finish q)\<lparr>queue_m := []\<rparr>)
          = (Returns (False, item), (finish q)\<lparr>queue_m := []\<rparr>)"
    by (rule pop_drained) (simp_all add: f)
  ultimately show ?thesis using f i by blast
qed

theorem finish_keeps_items_witness:
  "pops [(1, 0), (2, 0)] (finish \<lparr>queue_m = [4, 5], finished_m = False, condition_m = [2]\<rparr>)
   = ([Returns (True, 4), Returns (True, 5)],
      \<lparr>queue_m = [], finished_m = True, condition_m = []\<rparr>)"
  using finish_keeps_items
    [of "\<lparr>queue_m = [4, 5], finished_m = False, condition_m = [2]\<rparr>" "[(1, 0), (2, 0)]" 1 0]
  by (simp add: finish_def notify_all_def del: pops.simps)

section \<open>Properties of the bounded buffer\<close>

lemma efficient_step_bound:
  "length (buffer s) \<le> BUFFER_SIZE \<Longrightarrow> length (buffer (efficient_step e s)) \<le> BUFFER_SIZE"
  by (cases e)
     (auto simp: efficient_producer_def efficient_consumer_def
           split: producer_pc.splits list.splits)

lemma efficient_run_bound:
  "length (buffer s) \<le> BUFFER_SIZE \<Longrightarrow> length (buffer (efficient_run es s)) \<le> BUFFER_SIZE"
  by (induction es arbitrary: s) (simp_all add: efficient_step_bound)

lemma producer_blocks_when_full:
  assumes "length (buffer s) = BUFFER_SIZE" and "producer_at s = InLoop"
    and "producer_i s \<le> NUM_ITEMS" and "producer_tid \<notin> set (buffer_not_full s)"
  shows "efficient_producer k s = s\<lparr>buffer_not_full := buffer_not_full s @ [producer_tid]\<rparr>"
  using assms by (simp add: efficient_producer_def)

lemma suspended_producer_does_nothing:
  "producer_tid \<in> set (buffer_not_full s) \<Longrightarrow> efficient_producer k s = s"
  by (simp add: efficient_producer_def)

lemma consumer_makes_room:
  assumes "buffer s \<noteq> []" and "\<not> consumer_returned s"
    and "consumer_tid \<notin> set (buffer_not_empty s)"
  shows "efficient_consumer k s =
           s\<lparr>buffer := tl (buffer s), consumed_count := consumed_count s + 1,
             buffer_not_full := notify_one k (buffer_not_full s)\<rparr>"
  using assms by (simp add: efficient_consumer_def split: list.splits)

text \<open>
  Claim C4. Whatever the schedule of producer steps, consumer steps and spurious wake-ups,
  the buffer of \<^verbatim>\<open>run_efficient_version\<close> never holds more than \<^verbatim>\<open>BUFFER_SIZE\<close> items, and
  the bound is kept from any state that meets it. A producer that finds the buffer at
  capacity appends nothing: it is suspended in \<^verbatim>\<open>buffer_not_full\<close>, and it stays there,
  doing nothing, until a consumer's \<^verbatim>\<open>notify_one\<close> (after a pop has made room) or a spurious
  wake-up takes it out.
\<close>

theorem buffer_never_exceeds_capacity:
  "length (buffer (efficient_run es run_efficient_version_init)) \<le> BUFFER_SIZE
   \<and> (length (buffer s) \<le> BUFFER_SIZE \<longrightarrow> length (buffer (efficient_run es s)) \<le> BUFFER_SIZE)
   \<and> (length (buffer s) = BUFFER_SIZE \<longrightarrow> buffer (efficient_producer k s) = buffer s)
   \<and> (length (buffer s) = BUFFER_SIZE \<and> producer_at s = InLoop \<and> producer_i s \<le> NUM_ITEMS
        \<and> producer_tid \<notin> set (buffer_not_full s) \<longrightarrow>
          efficient_producer k s = s\<lparr>buffer_not_full := buffer_not_full s @ [producer_tid]\<rparr>)
   \<and> (producer_tid \<in> set (buffer_not_full s) \<longrightarrow> efficient_producer k s = s)"
proof -
  have "length (buffer run_efficient_version_init) \<le> BUFFER_SIZE"
    by (simp add: run_efficient_version_init_def)
  then have "length (buffer (efficient_run es run_efficient_version_init)) \<le> BUFFER_SIZE"
    by (rule efficient_run_bound)
  moreover have "buffer (efficient_producer k s) = buffer s" if "length (buffer s) = BUFFER_SIZE"
    using that by (simp add: efficient_producer_def split: producer_pc.splits)
  ultimately show ?thesis
    by (simp add: efficient_run_bound producer_blocks_when_full suspended_producer_does_nothing)
qed

text \<open>
  The producer runs twelve times on the fresh state: ten items are queued, the eleventh
  attempt suspends it, the twelfth does nothing.
\<close>

lemma full_buffer_example:
  "efficient_run (replicate 12 (ProducerRuns 0)) run_efficient_version_init
   = \<lparr>buffer = [1, 2, 3, 4, 5, 6, 7, 8, 9, 10], producer_done = False,
      buffer_not_empty = [], buffer_not_full = [0], producer_i = 11, producer_at = InLoop,
      consumed_count = 0, consumer_returned = False\<rparr>"
  by (simp add: numeral_eq_Suc efficient_producer_def run_efficient_version_init_def
      NUM_ITEMS_def BUFFER_SIZE_def producer_tid_def notify_one_def)

theorem buffer_never_exceeds_capacity_witness:
  "length (buffer (efficient_run (replicate 12 (ProducerRuns 0)) run_efficient_version_init)) = 10
   \<and> BUFFER_SIZE = 10
   \<and> buffer (efficient_producer 0
        (efficient_run (replicate 12 (ProducerRuns 0)) run_efficient_version_init))
       = [1, 2, 3, 4, 5, 6, 7, 8, 9, 10]"
  using buffer_never_exceeds_capacity
    [of "replicate 12 (ProducerRuns 0)"
        "efficient_run (replicate 12 (ProducerRuns 0)) run_efficient_version_init" 0]
  by (simp add: full_buffer_example BUFFER_SIZE_def)

section \<open>Properties of the stack\<close>

lemma Stack_init_inv: "length mem = MaxSize \<Longrightarrow> Stack_inv MaxSize (Stack_init mem)"
  by (simp add: Stack_inv_def Stack_init_def)

lemma Stack_push_overflow:
  "Stack_inv MaxSize s \<Longrightarrow>
     (Stack_push MaxSize v s = Inl (overflow_error ''Stack overflow'')) = (Stack_size s = MaxSize)"
  by (auto simp: Stack_push_def Stack_inv_def Stack_size_def)

lemma Stack_push_ok:
  assumes "Stack_inv MaxSize s" and "Stack_size s \<noteq> MaxSize"
  shows "\<exists>s'. Stack_push MaxSize v s = Inr s' \<and> Stack_inv MaxSize s'
            \<and> Stack_contents s' = Stack_contents s @ [v]
            \<and> Stack_pop s' = Inr (v, s'\<lparr>top_index := top_index s\<rparr>)
            \<and> Stack_contents (s'\<lparr>top_index := top_index s\<rparr>) = Stack_contents s"
proof -
  from assms have lt: "top_index s < MaxSize" and len: "length (data s) = MaxSize"
    by (simp_all add: Stack_inv_def Stack_size_def)
  let ?s' = "s\<lparr>data := (data s)[top_index s := v], top_index := top_index s + 1\<rparr>"
  have 1: "Stack_push MaxSize v s = Inr ?s'"
    using lt by (simp add: Stack_push_def)
  have 2: "Stack_inv MaxSize ?s'"
    using lt len by (simp add: Stack_inv_def)
  have 3: "Stack_contents ?s' = Stack_contents s @ [v]"
    using lt len by (simp add: Stack_contents_def take_Suc_conv_app_nth)
  have 4: "Stack_pop ?s' = Inr (v, ?s'\<lparr>top_index := top_index s\<rparr>)"
    using lt len by (simp add: Stack_pop_def Stack_empty_def)
  have 5: "Stack_contents (?s'\<lparr>top_index := top_index s\<rparr>) = Stack_contents s"
    by (simp add: Stack_contents_def)
  from 1 2 3 4 5 show ?thesis by blast
qed

lemma Stack_pop_underflow:
  "(Stack_pop s = Inl (underflow_error ''Stack underflow'')) = (Stack_size s = 0)"
  by (simp add: Stack_pop_def Stack_empty_def Stack_size_def)

lemma Stack_pop_ok:
  assumes "Stack_inv MaxSize s" and "Stack_size s \<noteq> 0"
  shows "\<exists>x s'. Stack_pop s = Inr (x, s') \<and> Stack_inv MaxSize s'
            \<and> Stack_contents s = Stack_contents s' @ [x]"
proof -
  from assms have pos: "0 < top_index s" and le: "top_index s \<le> length (data s)"
    and len: "length (data s) = MaxSize"
    by (simp_all add: Stack_inv_def Stack_size_def)
  let ?s' = "s\<lparr>top_index := top_index s - 1\<rparr>"
  have 1: "Stack_pop s = Inr (data s ! (top_index s - 1), ?s')"
    using pos by (simp add: Stack_pop_def Stack_empty_def)
  have 2: "Stack_inv MaxSize ?s'"
    using le len by (simp add: Stack_inv_def)
  have "take (Suc (top_index s - 1)) (data s)
          = take (top_index s - 1) (data s) @ [data s ! (top_index s - 1)]"
    using pos le by (intro take_Suc_conv_app_nth) simp
  then have 3: "Stack_contents s = Stack_contents ?s' @ [data s ! (top_index s - 1)]"
    using pos by (simp add: Stack_contents_def)
  from 1 2 3 show ?thesis by blast
qed

text \<open>
  Claim C7. On a stack object (its array has \<open>MaxSize\<close> cells and \<open>top_index\<close> is at most
  \<open>MaxSize\<close>, as after the constructor and after every \<^verbatim>\<open>push\<close> and \<^verbatim>\<open>pop\<close>), \<^verbatim>\<open>push(v)\<close> throws
  \<^verbatim>\<open>std::overflow_error\<close> exactly when the stack holds \<open>MaxSize\<close> elements; otherwise it puts
  \<open>v\<close> on top, and the next \<^verbatim>\<open>pop\<close> returns \<open>v\<close> and leaves the elements as before the push.
  \<^verbatim>\<open>pop()\<close> throws \<^verbatim>\<open>std::underflow_error\<close> exactly when the stack is empty; otherwise it
  removes the top element and returns it.
\<close>

theorem Stack_overflow_underflow:
  assumes "Stack_inv MaxSize s"
  shows "(case Stack_push MaxSize v s of
            Inl e \<Rightarrow> e = overflow_error ''Stack overflow'' \<and> Stack_size s = MaxSize
          | Inr s' \<Rightarrow> Stack_size s < MaxSize \<and> Stack_inv MaxSize s'
                \<and> Stack_contents s' = Stack_contents s @ [v]
                \<and> (case Stack_pop s' of
                      Inl e \<Rightarrow> False
                    | Inr (x, s'') \<Rightarrow> x = v \<and> Stack_contents s'' = Stack_contents s))
       \<and> (case Stack_pop s of
            Inl e \<Rightarrow> e = underflow_error ''Stack underflow'' \<and> Stack_size s = 0
                \<and> Stack_contents s = []
          | Inr (x, s') \<Rightarrow> 0 < Stack_size s \<and> Stack_inv MaxSize s'
                \<and> Stack_contents s = Stack_contents s' @ [x])"
proof -
  have push: "(case Stack_push MaxSize v s of
            Inl e \<Rightarrow> e = overflow_error ''Stack overflow'' \<and> Stack_size s = MaxSize
          | Inr s' \<Rightarrow> Stack_size s < MaxSize \<and> Stack_inv MaxSize s'
                \<and> Stack_contents s' = Stack_contents s @ [v]
                \<and> (case Stack_pop s' of
                      Inl e \<Rightarrow> False
                    | Inr (x, s'') \<Rightarrow> x = v \<and> Stack_contents s'' = Stack_contents s))"
  proof (cases "Stack_size s = MaxSize")
    case True
    then show ?thesis using Stack_push_overflow [OF assms, of v] by simp
  next
    case False
    moreover from False assms have "Stack_size s < MaxSize"
      by (simp add: Stack_inv_def Stack_size_def)
    ultimately show ?thesis using Stack_push_ok [OF assms False, of v] by auto
  qed
  have pop: "(case Stack_pop s of
            Inl e \<Rightarrow> e = underflow_error ''Stack underflow'' \<and> Stack_size s = 0
                \<and> Stack_contents s = []
          | Inr (x, s') \<Rightarrow> 0 < Stack_size s \<and> Stack_inv MaxSize s'
                \<and> Stack_contents s = Stack_contents s' @ [x])"
  proof (cases "Stack_size s = 0")
    case True
    then show ?thesis
      using Stack_pop_underflow [of s] by (simp add: Stack_contents_def Stack_size_def)
  next
    case False
    then show ?thesis using Stack_pop_ok [OF assms False] by auto
  qed
  from push pop show ?thesis by simp
qed

theorem Stack_overflow_underflow_witness:
  "Stack_inv 2 \<lparr>data = [10, 20::int], top_index = 1\<rparr>
   \<and> Stack_push 2 30 \<lparr>data = [10, 20::int], top_index = 1\<rparr>
       = Inr \<lparr>data = [10, 30], top_index = 2\<rparr>
   \<and> Stack_pop \<lparr>data = [10, 30::int], top_index = 2\<rparr>
       = Inr (30, \<lparr>data = [10, 30], top_index = 1\<rparr>)
   \<and> Stack_pop \<lparr>data = [10, 20::int], top_index = 1\<rparr>
       = Inr (10, \<lparr>data = [10, 20], top_index = 0\<rparr>)"
proof -
  have inv: "Stack_inv 2 \<lparr>data = [10, 20::int], top_index = 1\<rparr>"
    by (simp add: Stack_inv_def)
  show ?thesis
    using inv Stack_overflow_underflow [OF inv, of 30]
    by (simp add: Stack_push_def Stack_pop_def Stack_empty_def)
qed

text \<open>The two exceptions on a stack of capacity 2: a push on the full stack, a pop on the empty one.\<close>

lemma Stack_exceptions_example:
  "Stack_push 2 (30::int) \<lparr>data = [10, 20], top_index = 2\<rparr>
     = Inl (overflow_error ''Stack overflow'')
   \<and> Stack_pop \<lparr>data = [10, 20::int], top_index = 0\<rparr>
     = Inl (underflow_error ''Stack underflow'')"
  by (simp add: Stack_push_def Stack_pop_def Stack_empty_def)

end
